theory Spec2Isabelle
  imports Complex_Main "HOL-Library.Multiset"
begin

section \<open>Numbers: \<open>pfloat\<close> and \<open>idxint\<close>\<close>

text \<open>
  The solver computes with \<open>pfloat\<close> (a C floating-point type, declared in a header
  that is not part of \<open>src/\<close>) and with \<open>idxint\<close> (a signed integer type, same header).

  \<open>pfloat\<close> is modelled as the reals extended by the three special values of IEEE 754
  arithmetic: a finite value is an exact real (rounding, overflow and underflow are not
  modelled), and the results that IEEE 754 gives to \<open>x / 0\<close>, \<open>0 / 0\<close>,
  \<open>\<infinity> - \<infinity>\<close>, \<open>0 * \<infinity>\<close> and to comparisons with NaN are written out. The model has
  one zero; a zero divisor is taken to be \<open>+0\<close>. Every divisor of this program is a sum
  started at \<open>+0\<close>, a result of \<open>pow\<close> or a converted integer, none of which is \<open>-0\<close>.

  Array sizes, offsets and row numbers are modelled as \<open>nat\<close>: they are non-negative in
  every column-compressed matrix. The outer iteration index, which the caller makes
  negative on purpose, is an \<open>int\<close>. Signed overflow is undefined in C and not modelled.
\<close>

datatype pfloat = Fin real | PInf | NInf | NaN

instantiation pfloat :: "{zero,one,plus,minus,uminus,times,divide,ord}"
begin

definition zero_pfloat :: pfloat where
  "zero_pfloat = Fin 0"

definition one_pfloat :: pfloat where
  "one_pfloat = Fin 1"

fun plus_pfloat :: "pfloat \<Rightarrow> pfloat \<Rightarrow> pfloat" where
  "plus_pfloat (Fin a) (Fin b) = Fin (a + b)"
| "plus_pfloat NaN _ = NaN"
| "plus_pfloat _ NaN = NaN"
| "plus_pfloat PInf NInf = NaN"
| "plus_pfloat NInf PInf = NaN"
| "plus_pfloat PInf _ = PInf"
| "plus_pfloat _ PInf = PInf"
| "plus_pfloat NInf _ = NInf"
| "plus_pfloat _ NInf = NInf"

fun uminus_pfloat :: "pfloat \<Rightarrow> pfloat" where
  "uminus_pfloat (Fin a) = Fin (- a)"
| "uminus_pfloat PInf = NInf"
| "uminus_pfloat NInf = PInf"
| "uminus_pfloat NaN = NaN"

definition minus_pfloat :: "pfloat \<Rightarrow> pfloat \<Rightarrow> pfloat" where
  "minus_pfloat a b = (a :: pfloat) + (- b)"

fun times_pfloat :: "pfloat \<Rightarrow> pfloat \<Rightarrow> pfloat" where
  "times_pfloat (Fin a) (Fin b) = Fin (a * b)"
| "times_pfloat NaN _ = NaN"
| "times_pfloat _ NaN = NaN"
| "times_pfloat (Fin a) PInf = (if a = 0 then NaN else if 0 < a then PInf else NInf)"
| "times_pfloat (Fin a) NInf = (if a = 0 then NaN else if 0 < a then NInf else PInf)"
| "times_pfloat PInf (Fin b) = (if b = 0 then NaN else if 0 < b then PInf else NInf)"
| "times_pfloat NInf (Fin b) = (if b = 0 then NaN else if 0 < b then NInf else PInf)"
| "times_pfloat PInf PInf = PInf"
| "times_pfloat NInf NInf = PInf"
| "times_pfloat PInf NInf = NInf"
| "times_pfloat NInf PInf = NInf"

fun divide_pfloat :: "pfloat \<Rightarrow> pfloat \<Rightarrow> pfloat" where
  "divide_pfloat (Fin a) (Fin b) =
     (if b = 0 then (if a = 0 then NaN else if 0 < a then PInf else NInf)
      else Fin (a / b))"
| "divide_pfloat NaN _ = NaN"
| "divide_pfloat _ NaN = NaN"
| "divide_pfloat (Fin a) PInf = Fin 0"
| "divide_pfloat (Fin a) NInf = Fin 0"
| "divide_pfloat PInf (Fin b) = (if 0 \<le> b then PInf else NInf)"
| "divide_pfloat NInf (Fin b) = (if 0 \<le> b then NInf else PInf)"
| "divide_pfloat PInf PInf = NaN"
| "divide_pfloat NInf NInf = NaN"
| "divide_pfloat PInf NInf = NaN"
| "divide_pfloat NInf PInf = NaN"

fun less_pfloat :: "pfloat \<Rightarrow> pfloat \<Rightarrow> bool" where
  "less_pfloat (Fin a) (Fin b) = (a < b)"
| "less_pfloat NaN _ = False"
| "less_pfloat _ NaN = False"
| "less_pfloat NInf (Fin b) = True"
| "less_pfloat NInf PInf = True"
| "less_pfloat (Fin a) PInf = True"
| "less_pfloat _ _ = False"

fun less_eq_pfloat :: "pfloat \<Rightarrow> pfloat \<Rightarrow> bool" where
  "less_eq_pfloat (Fin a) (Fin b) = (a \<le> b)"
| "less_eq_pfloat NaN _ = False"
| "less_eq_pfloat _ NaN = False"
| "less_eq_pfloat NInf _ = True"
| "less_eq_pfloat _ PInf = True"
| "less_eq_pfloat _ _ = False"

instance ..

end

instantiation pfloat :: inverse
begin

definition inverse_pfloat :: "pfloat \<Rightarrow> pfloat" where
  "inverse_pfloat a = divide (Fin 1) a"

instance ..

end

text \<open>The C library's \<open>sqrt\<close>: NaN below zero.\<close>

fun fsqrt :: "pfloat \<Rightarrow> pfloat" where
  "fsqrt (Fin a) = (if a < 0 then NaN else Fin (sqrt a))"
| "fsqrt PInf = PInf"
| "fsqrt NInf = NaN"
| "fsqrt NaN = NaN"

text \<open>
  Modelled from the spec: the macro \<open>POWF\<close>, defined in a header that is not part of
  \<open>src/\<close>; the tolerance schedule \<open>1 / (iter + 1)^cgRate\<close> makes it the C library's
  \<open>pow\<close> (or \<open>powf\<close>). The solver calls it with a base \<open>iter + 1 \<ge> 1\<close> only; the
  cases of a base \<open>\<ge> 1\<close> are those of the C standard (Annex F), every other base is
  outside what the solver passes and is mapped to NaN.
\<close>

fun POWF :: "pfloat \<Rightarrow> pfloat \<Rightarrow> pfloat" where
  "POWF (Fin x) (Fin y) = (if 1 \<le> x then Fin (x powr y) else NaN)"
| "POWF (Fin x) PInf = (if x = 1 then Fin 1 else if 1 < x then PInf else NaN)"
| "POWF (Fin x) NInf = (if x = 1 then Fin 1 else if 1 < x then Fin 0 else NaN)"
| "POWF (Fin x) NaN = (if x = 1 then Fin 1 else NaN)"
| "POWF _ _ = NaN"

text \<open>
  Modelled from the spec: the macro \<open>MAX\<close>, defined in a header that is not part of
  \<open>src/\<close>; the spec's \<open>clamp_min\<close>, written \<open>a > b ? a : b\<close>.
\<close>

definition MAX_pfloat :: "pfloat \<Rightarrow> pfloat \<Rightarrow> pfloat" where
  "MAX_pfloat a b = (if b < a then a else b)"

definition CG_BEST_TOL :: pfloat where
  "CG_BEST_TOL = Fin (1 / 10 ^ 7)"

text \<open>Conversion of an integer to \<open>pfloat\<close>.\<close>

definition of_idxint :: "int \<Rightarrow> pfloat" where
  "of_idxint k = Fin (real_of_int k)"

text \<open>A finite value: neither an infinity nor NaN.\<close>

definition is_finite :: "pfloat \<Rightarrow> bool" where
  "is_finite a = (case a of Fin r \<Rightarrow> True | _ \<Rightarrow> False)"

section \<open>Arrays\<close>

text \<open>
  A C array is a list. Reading or writing past the end of an array is undefined in C;
  the theorems below carry the lengths as hypotheses. \<open>memset\<close> (to zero) and
  \<open>memcpy\<close> act on the first \<open>len\<close> cells of the destination.
\<close>

definition memset0 :: "pfloat list \<Rightarrow> nat \<Rightarrow> pfloat list" where
  "memset0 dst len = replicate len 0 @ drop len dst"

definition memcpy :: "'a list \<Rightarrow> 'a list \<Rightarrow> nat \<Rightarrow> 'a list" where
  "memcpy dst src len = take len src @ drop len dst"

text \<open>
  Modelled from the spec: \<open>scaleArray\<close>, declared in \<open>linAlg.h\<close>, which is not part of
  \<open>src/\<close> (as are the four helpers after it). It scales the first \<open>len\<close> cells of \<open>a\<close>
  by \<open>b\<close>, in place; the source uses it to negate a block.
\<close>

definition scaleArray :: "pfloat list \<Rightarrow> pfloat \<Rightarrow> nat \<Rightarrow> pfloat list" where
  "scaleArray a b len = fold (\<lambda>i a. a[i := a ! i * b]) [0..<len] a"

text \<open>Modelled from the spec: \<open>addScaledArray\<close>, the update \<open>a += sc * b\<close>.\<close>

definition addScaledArray :: "pfloat list \<Rightarrow> pfloat list \<Rightarrow> nat \<Rightarrow> pfloat \<Rightarrow> pfloat list" where
  "addScaledArray a b len sc = fold (\<lambda>i a. a[i := a ! i + sc * b ! i]) [0..<len] a"

text \<open>Modelled from the spec: \<open>innerProd\<close>, the inner product of \<open>x\<close> and \<open>y\<close>.\<close>

definition innerProd :: "pfloat list \<Rightarrow> pfloat list \<Rightarrow> nat \<Rightarrow> pfloat" where
  "innerProd x y len = fold (\<lambda>i ip. ip + x ! i * y ! i) [0..<len] 0"

text \<open>Modelled from the spec: \<open>calcNormSq\<close>, the sum of the squares of \<open>v\<close>.\<close>

definition calcNormSq :: "pfloat list \<Rightarrow> nat \<Rightarrow> pfloat" where
  "calcNormSq v len = fold (\<lambda>i nmsq. nmsq + v ! i * v ! i) [0..<len] 0"

text \<open>Modelled from the spec: \<open>calcNorm\<close>, the Euclidean norm of \<open>v\<close>.\<close>

definition calcNorm :: "pfloat list \<Rightarrow> nat \<Rightarrow> pfloat" where
  "calcNorm v len = fsqrt (calcNormSq v len)"

section \<open>The problem data and the solver's workspace\<close>

text \<open>
  \<open>AMatrix\<close> is the column-compressed matrix (fields \<open>x\<close>, \<open>i\<close>, \<open>p\<close> in the source),
  \<open>Data\<close> the part of the problem data that this file reads (fields \<open>n\<close>, \<open>m\<close>, \<open>A\<close>,
  \<open>RHO_X\<close>, \<open>CG_RATE\<close>), \<open>Priv\<close> the workspace. A field of \<open>Priv\<close> is a pointer:
  \<open>None\<close> is \<open>NULL\<close>, \<open>Some xs\<close> an allocated array with contents \<open>xs\<close>. The
  solving functions read through these pointers without a check (\<open>the\<close> in the
  model); the theorems about them say which arrays are allocated.
\<close>

record AMatrix =
  A_x :: "pfloat list"
  A_i :: "nat list"
  A_p :: "nat list"

record Data =
  d_n :: nat
  d_m :: nat
  d_A :: AMatrix
  RHO_X :: pfloat
  CG_RATE :: pfloat

record Priv =
  priv_p :: "pfloat list option"
  priv_r :: "pfloat list option"
  priv_Ap :: "pfloat list option"
  priv_tmp :: "pfloat list option"
  priv_z :: "pfloat list option"
  priv_M :: "pfloat list option"
  Ati :: "nat list option"
  Atp :: "nat list option"
  Atx :: "pfloat list option"

text \<open>
  The file-scope variables \<open>totCgIts\<close> and \<open>totalSolveTime\<close>. The third one,
  \<open>linsysTimer\<close>, is only read by \<open>tocq\<close>, whose result is an input of the model.
\<close>

record Globals =
  totCgIts :: int
  totalSolveTime :: pfloat

section \<open>Sparse products\<close>

text \<open>
  The source's \<open>_accumByAtrans\<close>: \<open>y += A'x\<close> for \<open>A\<close> in column-compressed format,
  and its two callers.
\<close>

definition accumByAtrans_core ::
  "nat \<Rightarrow> pfloat list \<Rightarrow> nat list \<Rightarrow> nat list \<Rightarrow> pfloat list \<Rightarrow> pfloat list \<Rightarrow> pfloat list" where
  "accumByAtrans_core n Ax Ai Ap x y =
     fold (\<lambda>j y.
             y[j := fold (\<lambda>p yj. yj + Ax ! p * x ! (Ai ! p)) [Ap ! j ..< Ap ! (j + 1)] (y ! j)])
          [0..<n] y"

definition accumByAtrans :: "Data \<Rightarrow> Priv \<Rightarrow> pfloat list \<Rightarrow> pfloat list \<Rightarrow> pfloat list" where
  "accumByAtrans d p x y =
     (let A = d_A d in accumByAtrans_core (d_n d) (A_x A) (A_i A) (A_p A) x y)"

definition accumByA :: "Data \<Rightarrow> Priv \<Rightarrow> pfloat list \<Rightarrow> pfloat list \<Rightarrow> pfloat list" where
  "accumByA d p x y =
     accumByAtrans_core (d_m d) (the (Atx p)) (the (Ati p)) (the (Atp p)) x y"

text \<open>
  \<open>matVec\<close>: \<open>y = (RHO_X * I + A'A) x\<close>. The scratch array \<open>tmp\<close> of the workspace is
  zeroed at the start of every call; the model returns \<open>y\<close>.
\<close>

definition matVec :: "Data \<Rightarrow> Priv \<Rightarrow> pfloat list \<Rightarrow> pfloat list \<Rightarrow> pfloat list" where
  "matVec d p x y =
     (let tmp = memset0 (the (priv_tmp p)) (d_m d);
          tmp = accumByA d p x tmp;
          y = memset0 y (d_n d);
          y = accumByAtrans d p tmp y
      in addScaledArray y x (d_n d) (RHO_X d))"

section \<open>Allocation\<close>

text \<open>
  Modelled from the spec: \<open>scs_malloc\<close>, \<open>scs_calloc\<close> and \<open>scs_free\<close>, macros of a
  header that is not part of \<open>src/\<close>, for the C allocator, which can run out of memory.
  A request either succeeds or returns \<open>NULL\<close>; the outcomes of the successive requests are an
  input of the model, the list \<open>plan\<close> (\<open>True\<close>: the request succeeds; requests past
  the end of the list succeed). \<open>live\<close> counts the blocks allocated and not yet freed.
  The contents of a fresh block are indeterminate after \<open>malloc\<close>; the model fills it
  with zeros.

  Storing through a \<open>NULL\<close> pointer is undefined in C: a run that does so has the
  outcome \<open>Undefined\<close>.
\<close>

record Heap =
  plan :: "bool list"
  live :: nat

datatype 'a outcome = Undefined | Returned 'a

definition scs_malloc :: "'a \<Rightarrow> Heap \<Rightarrow> 'a option \<times> Heap" where
  "scs_malloc fresh h =
     (case plan h of
        [] \<Rightarrow> (Some fresh, h\<lparr>live := live h + 1\<rparr>)
      | ok # rest \<Rightarrow>
          if ok then (Some fresh, h\<lparr>plan := rest, live := live h + 1\<rparr>)
          else (None, h\<lparr>plan := rest\<rparr>))"

definition scs_free :: "Heap \<Rightarrow> Heap" where
  "scs_free h = h\<lparr>live := live h - 1\<rparr>"

text \<open>The next request succeeds.\<close>

definition next_alloc_ok :: "Heap \<Rightarrow> bool" where
  "next_alloc_ok h = (case plan h of [] \<Rightarrow> True | ok # rest \<Rightarrow> ok)"

section \<open>The preconditioner\<close>

text \<open>
  \<open>getPreconditioner\<close>: \<open>M = inv (diag (RHO_X * I + A'A))\<close>. It writes \<open>M[i]\<close> for
  every \<open>i < n\<close>, so it stores through \<open>NULL\<close> when \<open>M\<close> is \<open>NULL\<close> and \<open>n > 0\<close>.
\<close>

definition getPreconditioner :: "Data \<Rightarrow> Priv \<Rightarrow> Priv outcome" where
  "getPreconditioner d p =
     (let A = d_A d
      in case priv_M p of
           None \<Rightarrow> if 0 < d_n d then Undefined else Returned p
         | Some M \<Rightarrow>
             Returned (p\<lparr>priv_M := Some (fold
               (\<lambda>i M. M[i := 1 / (RHO_X d +
                         calcNormSq (drop (A_p A ! i) (A_x A)) (A_p A ! (i + 1) - A_p A ! i))])
               [0..<d_n d] M)\<rparr>))"

section \<open>The transpose\<close>

text \<open>
  Modelled from the spec: \<open>cs_cumsum\<close>, which is not part of \<open>src/\<close>. It turns the counts
  \<open>c\<close> into their exclusive prefix sums, written both to \<open>p\<close> (with the total in
  \<open>p[n]\<close>) and back to \<open>c\<close>, which then serves as the write cursor of the scatter.
\<close>

definition cs_cumsum :: "nat list \<Rightarrow> nat list \<Rightarrow> nat \<Rightarrow> nat list \<times> nat list" where
  "cs_cumsum p c n =
     (let (p, c, nz) = fold (\<lambda>i (p, c, nz). (p[i := nz], c[i := nz], nz + c ! i)) [0..<n] (p, c, 0)
      in (p[n := nz], c))"

text \<open>The first loop of \<open>transpose\<close>: the number of entries of each row.\<close>

definition row_counts :: "nat list \<Rightarrow> nat \<Rightarrow> nat list \<Rightarrow> nat list" where
  "row_counts Ai nnz z = fold (\<lambda>i z. z[Ai ! i := z ! (Ai ! i) + 1]) [0..<nnz] z"

text \<open>The second loop: entry \<open>A(i, j)\<close> goes to the next free cell of column \<open>i\<close>.\<close>

definition scatter ::
  "nat \<Rightarrow> nat list \<Rightarrow> nat list \<Rightarrow> pfloat list \<Rightarrow> nat list \<times> pfloat list \<times> nat list
     \<Rightarrow> nat list \<times> pfloat list \<times> nat list" where
  "scatter n Ap Ai Ax =
     fold (\<lambda>j. fold (\<lambda>i (Ci, Cx, z). let q = z ! (Ai ! i)
                                      in (Ci[q := j], Cx[q := Ax ! i], z[Ai ! i := q + 1]))
                     [Ap ! j ..< Ap ! (j + 1)])
          [0..<n]"

text \<open>
  The source's \<open>transpose\<close>, on the arrays: \<open>z\<close> is its local array, zeroed by
  \<open>calloc\<close>; the result is \<open>(Ci, Cp, Cx)\<close>.
\<close>

definition transpose_arrays ::
  "nat \<Rightarrow> nat \<Rightarrow> AMatrix \<Rightarrow> nat list \<Rightarrow> nat list \<Rightarrow> pfloat list \<Rightarrow> nat list
     \<Rightarrow> nat list \<times> nat list \<times> pfloat list" where
  "transpose_arrays m n A Ci Cp Cx z =
     (let Ap = A_p A; Ai = A_i A; Ax = A_x A;
          z = row_counts Ai (Ap ! n) z;
          (Cp, z) = cs_cumsum Cp z m;
          (Ci, Cx, z) = scatter n Ap Ai Ax (Ci, Cx, z)
      in (Ci, Cp, Cx))"

text \<open>
  The source's \<open>transpose\<close>, with its pointers. It writes to \<open>p->Ati\<close>, \<open>p->Atp\<close>,
  \<open>p->Atx\<close> and to \<open>z\<close> without a check; the model gives \<open>Undefined\<close> as soon as one
  of the four is \<open>NULL\<close> (for a matrix without rows or without entries some of them
  are not touched; the model does not follow that exception).
\<close>

definition transpose_priv :: "Data \<Rightarrow> Priv \<Rightarrow> Heap \<Rightarrow> (Priv \<times> Heap) outcome" where
  "transpose_priv d p h =
     (case (Ati p, Atp p, Atx p) of
        (Some Ci, Some Cp, Some Cx) \<Rightarrow>
          (case scs_malloc (replicate (d_m d) 0) h of
             (None, h) \<Rightarrow> Undefined
           | (Some z, h) \<Rightarrow>
               (let (Ci, Cp, Cx) = transpose_arrays (d_m d) (d_n d) (d_A d) Ci Cp Cx z
                in Returned (p\<lparr>Ati := Some Ci, Atp := Some Cp, Atx := Some Cx\<rparr>, scs_free h)))
      | _ \<Rightarrow> Undefined)"

section \<open>Set-up and tear-down\<close>

definition free_if :: "'a option \<Rightarrow> Heap \<Rightarrow> Heap" where
  "free_if q h = (case q of None \<Rightarrow> h | Some _ \<Rightarrow> scs_free h)"

definition freePriv :: "Priv option \<Rightarrow> Heap \<Rightarrow> Heap" where
  "freePriv p h =
     (case p of
        None \<Rightarrow> h
      | Some p \<Rightarrow>
          (let h = free_if (priv_p p) h;
               h = free_if (priv_r p) h;
               h = free_if (priv_Ap p) h;
               h = free_if (priv_tmp p) h;
               h = free_if (Ati p) h;
               h = free_if (Atx p) h;
               h = free_if (Atp p) h;
               h = free_if (priv_z p) h;
               h = free_if (priv_M p) h
           in scs_free h))"

text \<open>
  \<open>initPriv\<close>. The result of \<open>scs_calloc\<close> for the structure is not checked before the
  first store \<open>p->p = ...\<close>. The call returns the handle (\<open>Some\<close>) or \<open>NULL\<close> (\<open>None\<close>),
  the heap and the file-scope variables.
\<close>

definition initPriv :: "Data \<Rightarrow> Heap \<Rightarrow> Globals \<Rightarrow> (Priv option \<times> Heap \<times> Globals) outcome" where
  "initPriv d h g =
     (let A = d_A d; n = d_n d; m = d_m d
      in case scs_malloc () h of
           (None, h) \<Rightarrow> Undefined
         | (Some _, h) \<Rightarrow>
             (let (pp, h) = scs_malloc (replicate n 0) h;
                  (pr, h) = scs_malloc (replicate n 0) h;
                  (pAp, h) = scs_malloc (replicate n 0) h;
                  (ptmp, h) = scs_malloc (replicate m 0) h;
                  (pz, h) = scs_malloc (replicate n 0) h;
                  (pM, h) = scs_malloc (replicate n 0) h;
                  (pAti, h) = scs_malloc (replicate (A_p A ! n) 0) h;
                  (pAtp, h) = scs_malloc (replicate (m + 1) 0) h;
                  (pAtx, h) = scs_malloc (replicate (A_p A ! n) 0) h;
                  p = \<lparr>priv_p = pp, priv_r = pr, priv_Ap = pAp, priv_tmp = ptmp,
                       priv_z = pz, priv_M = pM, Ati = pAti, Atp = pAtp, Atx = pAtx\<rparr>
              in case transpose_priv d p h of
                   Undefined \<Rightarrow> Undefined
                 | Returned (p, h) \<Rightarrow>
                     (case getPreconditioner d p of
                        Undefined \<Rightarrow> Undefined
                      | Returned p \<Rightarrow>
                          (let g = g\<lparr>totalSolveTime := 0, totCgIts := 0\<rparr>
                           in if priv_p p = None \<or> priv_r p = None \<or> priv_Ap p = None
                                 \<or> priv_tmp p = None \<or> Ati p = None \<or> Atp p = None
                                 \<or> Atx p = None
                              then Returned (None, freePriv (Some p) h, g)
                              else Returned (Some p, h, g)))))"

section \<open>The conjugate-gradient solver\<close>

text \<open>
  \<open>applyPreConditioner\<close>: \<open>z = M r\<close> elementwise, and \<open>ipzr = z'r\<close>.
\<close>

definition applyPreConditioner ::
  "pfloat list \<Rightarrow> pfloat list \<Rightarrow> pfloat list \<Rightarrow> nat \<Rightarrow> pfloat list \<times> pfloat" where
  "applyPreConditioner M z r n =
     fold (\<lambda>i (z, ipzr). let z = z[i := r ! i * M ! i] in (z, ipzr + z ! i * r ! i))
          [0..<n] (z, 0)"

text \<open>
  The variables of \<open>pcg\<close>: the buffer \<open>b\<close> (right-hand side, then solution), the arrays
  \<open>r\<close>, \<open>p\<close>, \<open>Ap\<close>, \<open>z\<close> of the workspace, and \<open>ipzr\<close>.
\<close>

record cg_state =
  cg_b :: "pfloat list"
  cg_r :: "pfloat list"
  cg_p :: "pfloat list"
  cg_Ap :: "pfloat list"
  cg_z :: "pfloat list"
  cg_ipzr :: pfloat

text \<open>The lines of \<open>pcg\<close> before its loop; \<open>s = None\<close> is \<open>s == NULL\<close>.\<close>

definition pcg_init :: "Data \<Rightarrow> Priv \<Rightarrow> pfloat list option \<Rightarrow> pfloat list \<Rightarrow> cg_state" where
  "pcg_init d pr s b =
     (let n = d_n d;
          p = the (priv_p pr); Ap = the (priv_Ap pr); r = the (priv_r pr);
          z = the (priv_z pr); M = the (priv_M pr);
          (r, b) = (case s of
                      None \<Rightarrow> (let r = memcpy r b n; b = memset0 b n in (r, b))
                    | Some s \<Rightarrow>
                        (let r = matVec d pr s r;
                             r = addScaledArray r b n (- 1);
                             r = scaleArray r (- 1) n;
                             b = memcpy b s n
                         in (r, b)));
          (z, ipzr) = applyPreConditioner M z r n;
          p = memcpy p z n
      in \<lparr>cg_b = b, cg_r = r, cg_p = p, cg_Ap = Ap, cg_z = z, cg_ipzr = ipzr\<rparr>)"

text \<open>One pass through the body of the loop, up to the test of the residual.\<close>

definition pcg_step :: "Data \<Rightarrow> Priv \<Rightarrow> cg_state \<Rightarrow> cg_state" where
  "pcg_step d pr st =
     (let n = d_n d;
          Ap = matVec d pr (cg_p st) (cg_Ap st);
          alpha = cg_ipzr st / innerProd (cg_p st) Ap n;
          b = addScaledArray (cg_b st) (cg_p st) n alpha;
          r = addScaledArray (cg_r st) Ap n (- alpha)
      in st\<lparr>cg_b := b, cg_r := r, cg_Ap := Ap\<rparr>)"

text \<open>The rest of the body: the new \<open>z\<close>, \<open>ipzr\<close> and direction \<open>p\<close>.\<close>

definition pcg_direction :: "Data \<Rightarrow> Priv \<Rightarrow> cg_state \<Rightarrow> cg_state" where
  "pcg_direction d pr st =
     (let n = d_n d;
          ipzrOld = cg_ipzr st;
          (z, ipzr) = applyPreConditioner (the (priv_M pr)) (cg_z st) (cg_r st) n;
          p = scaleArray (cg_p st) (ipzr / ipzrOld) n;
          p = addScaledArray p z n 1
      in st\<lparr>cg_p := p, cg_z := z, cg_ipzr := ipzr\<rparr>)"

function pcg_loop ::
  "Data \<Rightarrow> Priv \<Rightarrow> nat \<Rightarrow> pfloat \<Rightarrow> nat \<Rightarrow> cg_state \<Rightarrow> nat \<times> cg_state" where
  "pcg_loop d pr max_its tol i st =
     (if i < max_its then
        (let st = pcg_step d pr st
         in if calcNorm (cg_r st) (d_n d) < tol then (i + 1, st)
            else pcg_loop d pr max_its tol (i + 1) (pcg_direction d pr st))
      else (i, st))"
  by pat_completeness auto
termination
  by (relation "measure (\<lambda>(d, pr, max_its, tol, i, st). max_its - i)") auto

text \<open>\<open>pcg\<close> returns the number of iterations; the model returns the variables too.\<close>

definition pcg ::
  "Data \<Rightarrow> Priv \<Rightarrow> pfloat list option \<Rightarrow> pfloat list \<Rightarrow> nat \<Rightarrow> pfloat \<Rightarrow> nat \<times> cg_state" where
  "pcg d pr s b max_its tol = pcg_loop d pr max_its tol 0 (pcg_init d pr s b)"

section \<open>The solve and its statistics\<close>

text \<open>The tolerance that \<open>solveLinSys\<close> hands to \<open>pcg\<close>.\<close>

definition cgTol :: "Data \<Rightarrow> pfloat list \<Rightarrow> int \<Rightarrow> pfloat" where
  "cgTol d b iter =
     (let cgTol = calcNorm b (d_n d) *
                    (if iter < 0 then CG_BEST_TOL else 1 / POWF (of_idxint (iter + 1)) (CG_RATE d))
      in MAX_pfloat cgTol CG_BEST_TOL)"

text \<open>
  \<open>solveLinSys\<close>. The buffer \<open>b\<close> has \<open>n + m\<close> cells; \<open>&(b[n])\<close> is its tail.
  \<open>elapsed\<close> is the value of \<open>tocq(&linsysTimer)\<close>. The source returns nothing; the
  model returns the buffer, the count \<open>cgIts\<close> and the file-scope variables.
\<close>

definition solveLinSys ::
  "Data \<Rightarrow> Priv \<Rightarrow> pfloat list \<Rightarrow> pfloat list option \<Rightarrow> int \<Rightarrow> pfloat \<Rightarrow> Globals
     \<Rightarrow> pfloat list \<times> nat \<times> Globals" where
  "solveLinSys d p b s iter elapsed g =
     (let n = d_n d; m = d_m d;
          tol = cgTol d b iter;
          b = accumByAtrans d p (drop n b) b;
          (cgIts, st) = pcg d p s b n tol;
          b = cg_b st;
          b = take n b @ scaleArray (drop n b) (- 1) m;
          b = take n b @ accumByA d p b (drop n b);
          g = (if 0 \<le> iter then g\<lparr>totCgIts := totCgIts g + int cgIts\<rparr> else g);
          g = g\<lparr>totalSolveTime := totalSolveTime g + elapsed\<rparr>
      in (b, cgIts, g))"

text \<open>
  \<open>getLinSysSummary\<close>. The source prints its two numbers into a string; the model
  returns the numbers, and the file-scope variables after the call.
\<close>

definition getLinSysSummary :: "Priv \<Rightarrow> int \<Rightarrow> Globals \<Rightarrow> (pfloat \<times> pfloat) \<times> Globals" where
  "getLinSysSummary p info_iter g =
     ((of_idxint (totCgIts g) / of_idxint (info_iter + 1),
       totalSolveTime g / of_idxint (info_iter + 1) / Fin 1000),
      g\<lparr>totCgIts := 0, totalSolveTime := 0\<rparr>)"

section \<open>Column-compressed matrices\<close>

text \<open>
  A well-formed \<open>m\<close> by \<open>n\<close> matrix: \<open>n + 1\<close> column offsets that start at 0 and do
  not decrease, one row number below \<open>m\<close> and one value for each of the \<open>p[n]\<close>
  entries.
\<close>

definition valid_csc :: "nat \<Rightarrow> nat \<Rightarrow> AMatrix \<Rightarrow> bool" where
  "valid_csc m n A =
     (length (A_p A) = n + 1 \<and> A_p A ! 0 = 0 \<and> sorted (A_p A)
      \<and> length (A_i A) = A_p A ! n \<and> length (A_x A) = A_p A ! n
      \<and> (\<forall>r\<in>set (A_i A). r < m))"

text \<open>The stored entries of a matrix with \<open>n\<close> columns, as (row, column, value).\<close>

definition csc_entries :: "nat \<Rightarrow> AMatrix \<Rightarrow> (nat \<times> nat \<times> pfloat) list" where
  "csc_entries n A =
     concat (map (\<lambda>j. map (\<lambda>k. (A_i A ! k, j, A_x A ! k)) [A_p A ! j ..< A_p A ! (j + 1)])
                 [0..<n])"

text \<open>
  The products with \<open>A\<close> and with its transpose, in \<open>pfloat\<close> arithmetic:
  \<open>csc_mult n A x i\<close> is \<open>(A x)\<^sub>i\<close>, the products \<open>v * x\<^sub>c\<close> of the stored entries
  \<open>(i, c, v)\<close> of row \<open>i\<close>, added to \<open>0\<close> one after the other in the order in which \<open>A\<close>
  stores them; \<open>csc_tmult n A t j\<close> is \<open>(A' t)\<^sub>j\<close>, the same for the products \<open>v * t\<^sub>r\<close>
  of the stored entries \<open>(r, j, v)\<close> of column \<open>j\<close>.
\<close>

definition csc_mult :: "nat \<Rightarrow> AMatrix \<Rightarrow> pfloat list \<Rightarrow> nat \<Rightarrow> pfloat" where
  "csc_mult n A x i =
     fold (\<lambda>(r, c, v) s. s + v * x ! c) (filter (\<lambda>(r, c, v). r = i) (csc_entries n A)) 0"

definition csc_tmult :: "nat \<Rightarrow> AMatrix \<Rightarrow> pfloat list \<Rightarrow> nat \<Rightarrow> pfloat" where
  "csc_tmult n A t j =
     fold (\<lambda>(r, c, v) s. s + v * t ! r) (filter (\<lambda>(r, c, v). c = j) (csc_entries n A)) 0"



text \<open>
  For the analysis of \<open>transpose\<close>: the first cell of row \<open>i\<close> in the transpose, the
  cell that receives entry \<open>k\<close>, and the state of the scatter loop when the entries
  before \<open>k\<close> are placed.
\<close>

definition row_start :: "nat list \<Rightarrow> nat \<Rightarrow> nat" where
  "row_start Ai i = (\<Sum>r<i. count_list Ai r)"

definition dest :: "nat list \<Rightarrow> nat \<Rightarrow> nat" where
  "dest Ai k = row_start Ai (Ai ! k) + count_list (take k Ai) (Ai ! k)"

definition scatter_inv ::
  "nat \<Rightarrow> nat \<Rightarrow> nat list \<Rightarrow> nat list \<Rightarrow> pfloat list \<Rightarrow> nat
     \<Rightarrow> nat list \<times> pfloat list \<times> nat list \<Rightarrow> bool" where
  "scatter_inv m n Ap Ai Ax k s =
     (case s of (Ci, Cx, z) \<Rightarrow>
        length Ci = length Ai \<and> length Cx = length Ai \<and> length z = m
        \<and> (\<forall>i<m. z ! i = row_start Ai i + count_list (take k Ai) i)
        \<and> (\<forall>j<n. \<forall>k'. Ap ! j \<le> k' \<and> k' < Ap ! (j + 1) \<and> k' < k
              \<longrightarrow> Ci ! dest Ai k' = j \<and> Cx ! dest Ai k' = Ax ! k'))"

section \<open>Example data\<close>

text \<open>
  The 2 by 2 identity with \<open>RHO_X = 1\<close>, and the workspace that \<open>initPriv\<close> builds
  for it when every allocation succeeds.
\<close>

definition ident2 :: Data where
  "ident2 = \<lparr>d_n = 2, d_m = 2,
      d_A = \<lparr>A_x = [Fin 1, Fin 1], A_i = [0, 1], A_p = [0, 1, 2]\<rparr>,
      RHO_X = Fin 1, CG_RATE = Fin 2\<rparr>"

definition ident2_priv :: Priv where
  "ident2_priv = \<lparr>priv_p = Some [0, 0], priv_r = Some [0, 0], priv_Ap = Some [0, 0],
     priv_tmp = Some [0, 0], priv_z = Some [0, 0], priv_M = Some [Fin (1 / 2), Fin (1 / 2)],
     Ati = Some [0, 1], Atp = Some [0, 1, 2], Atx = Some [Fin 1, Fin 1]\<rparr>"

text \<open>
  A 2 by 5 matrix with rows \<open>(1 2 3 0 0)\<close> and \<open>(0 0 0 1 2)\<close>, \<open>RHO_X = 1\<close>, and its
  workspace.
\<close>

definition blocks5 :: Data where
  "blocks5 = \<lparr>d_n = 5, d_m = 2,
      d_A = \<lparr>A_x = [Fin 1, Fin 2, Fin 3, Fin 1, Fin 2], A_i = [0, 0, 0, 1, 1],
             A_p = [0, 1, 2, 3, 4, 5]\<rparr>,
      RHO_X = Fin 1, CG_RATE = Fin 2\<rparr>"

definition blocks5_priv :: Priv where
  "blocks5_priv = \<lparr>priv_p = Some [0, 0, 0, 0, 0], priv_r = Some [0, 0, 0, 0, 0],
     priv_Ap = Some [0, 0, 0, 0, 0], priv_tmp = Some [0, 0],
     priv_z = Some [0, 0, 0, 0, 0],
     priv_M = Some [Fin (1 / 2), Fin (1 / 5), Fin (1 / 10), Fin (1 / 2), Fin (1 / 5)],
     Ati = Some [0, 1, 2, 3, 4], Atp = Some [0, 3, 5],
     Atx = Some [Fin 1, Fin 2, Fin 3, Fin 1, Fin 2]\<rparr>"

text \<open>A system of dimension one without constraint rows, with exponent \<open>rate\<close>.\<close>

definition line1 :: "pfloat \<Rightarrow> Data" where
  "line1 rate = \<lparr>d_n = 1, d_m = 0, d_A = \<lparr>A_x = [], A_i = [], A_p = [0, 0]\<rparr>,
      RHO_X = Fin 1, CG_RATE = rate\<rparr>"

text \<open>
  The 2 by 3 matrix with rows \<open>(1 0 2)\<close> and \<open>(3 4 0)\<close>, its first column stored with
  row 1 before row 0, \<open>RHO_X = 1\<close>, and its workspace.
\<close>

definition ex23 :: Data where
  "ex23 = \<lparr>d_n = 3, d_m = 2,
      d_A = \<lparr>A_x = [Fin 3, Fin 1, Fin 4, Fin 2], A_i = [1, 0, 1, 0], A_p = [0, 2, 3, 4]\<rparr>,
      RHO_X = Fin 1, CG_RATE = Fin 2\<rparr>"

definition ex23_priv :: Priv where
  "ex23_priv = \<lparr>priv_p = Some [0, 0, 0], priv_r = Some [0, 0, 0], priv_Ap = Some [0, 0, 0],
     priv_tmp = Some [0, 0], priv_z = Some [0, 0, 0],
     priv_M = Some [Fin (1 / 11), Fin (1 / 17), Fin (1 / 5)],
     Ati = Some [0, 2, 0, 1], Atp = Some [0, 2, 4],
     Atx = Some [Fin 1, Fin 2, Fin 3, Fin 4]\<rparr>"

text \<open>
  The workspace of \<open>ex23\<close> after some use: the scratch array \<open>tmp\<close> holds what the
  last call left there.
\<close>

definition ex23_dirty :: Priv where
  "ex23_dirty = ex23_priv\<lparr>priv_tmp := Some [Fin 3, NaN]\<rparr>"



section \<open>Evaluation on concrete data\<close>

lemma list_update_Cons_numeral: "(x # xs)[numeral k := v] = x # xs[pred_numeral k := v]"
  by (simp add: numeral_eq_Suc)

lemma replicate_numeral_Cons: "replicate (numeral k) x = x # replicate (pred_numeral k) x"
  by (simp add: numeral_eq_Suc)

lemma sqrt_less_iff_sq: "0 < t \<Longrightarrow> (sqrt q < t) = (q < t * t)"
proof -
  assume t: "0 < t"
  have "sqrt (t * t) = t" using t by (simp add: real_sqrt_mult_self)
  then have "(sqrt q < t) = (sqrt q < sqrt (t * t))" by simp
  also have "\<dots> = (q < t * t)" by (rule real_sqrt_less_iff)
  finally show ?thesis .
qed

lemma fsqrt_less_Fin: "0 < t \<Longrightarrow> (fsqrt (Fin q) < Fin t) = (0 \<le> q \<and> q < t * t)"
  by (simp add: sqrt_less_iff_sq not_less)

lemma fsqrt_9: "fsqrt (Fin 9) = Fin 3"
proof -
  have "sqrt 9 = 3" by (rule real_sqrt_unique) simp_all
  then show ?thesis by simp
qed

lemma fsqrt_16: "fsqrt (Fin 16) = Fin 4"
proof -
  have "sqrt 16 = 4" by (rule real_sqrt_unique) simp_all
  then show ?thesis by simp
qed

lemmas eval_simps = upt_conv_Cons list_update_Cons_numeral replicate_numeral_Cons
  zero_pfloat_def one_pfloat_def Let_def

lemmas solver_defs = pcg_def pcg_init_def pcg_step_def pcg_direction_def matVec_def
  accumByA_def accumByAtrans_def accumByAtrans_core_def addScaledArray_def scaleArray_def
  innerProd_def calcNorm_def calcNormSq_def applyPreConditioner_def memcpy_def memset0_def
  CG_BEST_TOL_def

lemmas init_defs = initPriv_def scs_malloc_def transpose_priv_def transpose_arrays_def
  row_counts_def cs_cumsum_def scatter_def getPreconditioner_def scs_free_def calcNormSq_def
  freePriv_def free_if_def

lemma initPriv_ident2:
  "initPriv ident2 \<lparr>plan = [], live = 0\<rparr> g
     = Returned (Some ident2_priv, \<lparr>plan = [], live = 10\<rparr>,
                 \<lparr>totCgIts = 0, totalSolveTime = 0\<rparr>)"
  by (simp add: ident2_def ident2_priv_def init_defs eval_simps)

lemma initPriv_blocks5:
  "initPriv blocks5 \<lparr>plan = [], live = 0\<rparr> g
     = Returned (Some blocks5_priv, \<lparr>plan = [], live = 10\<rparr>,
                 \<lparr>totCgIts = 0, totalSolveTime = 0\<rparr>)"
  by (simp add: blocks5_def blocks5_priv_def init_defs eval_simps)

lemma transpose_priv_ex23:
  "transpose_priv ex23
       (ex23_priv\<lparr>Ati := Some [0, 0, 0, 0], Atp := Some [0, 0, 0], Atx := Some [0, 0, 0, 0]\<rparr>)
       \<lparr>plan = [], live = 0\<rparr>
     = Returned (ex23_priv, \<lparr>plan = [], live = 0\<rparr>)"
  by (simp add: ex23_def ex23_priv_def init_defs eval_simps)

lemma valid_csc_ex23: "valid_csc (d_m ex23) (d_n ex23) (d_A ex23)"
  by (simp add: ex23_def valid_csc_def)

lemma transpose_arrays_ex23:
  "transpose_arrays (d_m ex23) (d_n ex23) (d_A ex23) [7, 7, 7, 7] [9, 9, 9] [NaN, NaN, NaN, NaN]
       (replicate (d_m ex23) 0)
     = ([0, 2, 0, 1], [0, 2, 4], [Fin 1, Fin 2, Fin 3, Fin 4])"
  by (simp add: ex23_def init_defs eval_simps)


text \<open>
  The scenario of the specification: \<open>(2 I) x = (2, 2)\<close> without warm start is solved
  by \<open>x = (1, 1)\<close> in one iteration.
\<close>

lemma pcg_ident2_scenario:
  "fst (pcg ident2 ident2_priv None [Fin 2, Fin 2] 2 CG_BEST_TOL) = 1
   \<and> cg_b (snd (pcg ident2 ident2_priv None [Fin 2, Fin 2] 2 CG_BEST_TOL)) = [Fin 1, Fin 1]"
  by (simp add: ident2_def ident2_priv_def solver_defs eval_simps)

text \<open>Two solves with \<open>blocks5\<close>, of three and of five iterations.\<close>

lemma solveLinSys_blocks5_first:
  "solveLinSys blocks5 blocks5_priv [Fin 2, Fin 1, Fin 2, 0, 0, 0, 0] None 99 (Fin 7)
       \<lparr>totCgIts = 0, totalSolveTime = 0\<rparr>
     = ([Fin (4 / 3), Fin (- (1 / 3)), Fin 0, Fin 0, Fin 0, Fin (2 / 3), Fin 0], 3,
        \<lparr>totCgIts = 3, totalSolveTime = Fin 7\<rparr>)"
  by (simp add: solveLinSys_def cgTol_def MAX_pfloat_def of_idxint_def blocks5_def
      blocks5_priv_def solver_defs eval_simps fsqrt_less_Fin fsqrt_9 del: fsqrt.simps)

lemma solveLinSys_blocks5_second:
  "solveLinSys blocks5 blocks5_priv [Fin 1, Fin 1, Fin 1, Fin 2, Fin 3, 0, 0] None 99 (Fin 9)
       \<lparr>totCgIts = 3, totalSolveTime = Fin 7\<rparr>
     = ([Fin (3 / 5), Fin (1 / 5), Fin (- (1 / 5)), Fin (2 / 3), Fin (1 / 3), Fin (2 / 5),
         Fin (4 / 3)], 5,
        \<lparr>totCgIts = 8, totalSolveTime = Fin 16\<rparr>)"
  by (simp add: solveLinSys_def cgTol_def MAX_pfloat_def of_idxint_def blocks5_def
      blocks5_priv_def solver_defs eval_simps fsqrt_less_Fin fsqrt_16 del: fsqrt.simps)

section \<open>Loops that write one cell per pass\<close>

lemma fold_update_length:
  "length (fold (\<lambda>i a. a[i := h i a]) [0..<n] a0) = length a0"
  by (induction n) simp_all

lemma fold_update_nth:
  "j < length a0 \<Longrightarrow>
   fold (\<lambda>i a. a[i := h i (a ! i)]) [0..<n] a0 ! j = (if j < n then h j (a0 ! j) else a0 ! j)"
proof (induction n)
  case 0
  then show ?case by simp
next
  case (Suc n)
  have len: "length (fold (\<lambda>i a. a[i := h i (a ! i)]) [0..<n] a0) = length a0"
    by (rule fold_update_length [where h = "\<lambda>i a. h i (a ! i)"])
  from Suc show ?case
    by (auto simp: len nth_list_update less_Suc_eq)
qed

section \<open>Norms\<close>

lemma calcNormSq_Fin:
  "len \<le> length v \<Longrightarrow> calcNormSq (map Fin v) len = Fin (\<Sum>i<len. v ! i * v ! i)"
  unfolding calcNormSq_def
  by (induction len) (simp_all add: zero_pfloat_def)

text \<open>A sum of squares is a non-negative real, \<open>+\<infinity>\<close> or NaN; so is the norm.\<close>

lemma calcNormSq_cases:
  "(\<exists>x\<ge>0. calcNormSq v len = Fin x) \<or> calcNormSq v len = PInf \<or> calcNormSq v len = NaN"
proof (induction len)
  case 0
  then show ?case by (simp add: calcNormSq_def zero_pfloat_def)
next
  case (Suc len)
  have step: "calcNormSq v (Suc len) = calcNormSq v len + v ! len * v ! len"
    by (simp add: calcNormSq_def)
  have sq: "(\<exists>x\<ge>0. v ! len * v ! len = Fin x) \<or> v ! len * v ! len = PInf
              \<or> v ! len * v ! len = NaN"
    by (cases "v ! len") auto
  from Suc sq show ?case
    unfolding step by (elim disjE exE conjE) auto
qed

lemma calcNorm_cases:
  "(\<exists>x\<ge>0. calcNorm v len = Fin x) \<or> calcNorm v len = PInf \<or> calcNorm v len = NaN"
  using calcNormSq_cases [of v len] unfolding calcNorm_def by (elim disjE exE conjE) auto


section \<open>The iteration count of \<open>pcg\<close>\<close>

text \<open>Whatever the arithmetic does, \<open>pcg\<close> returns a count within its budget.\<close>

lemma pcg_loop_le: "i \<le> max_its \<Longrightarrow> fst (pcg_loop d pr max_its tol i st) \<le> max_its"
proof (induction d pr max_its tol i st rule: pcg_loop.induct)
  case (1 d pr max_its tol i st)
  show ?case
  proof (cases "i < max_its")
    case True
    with "1.IH" show ?thesis
      by (subst pcg_loop.simps) (simp add: Let_def)
  next
    case False
    with "1.prems" show ?thesis by (subst pcg_loop.simps) simp
  qed
qed

lemma pcg_count_le_budget: "fst (pcg d pr s b max_its tol) \<le> max_its"
  unfolding pcg_def by (rule pcg_loop_le) simp

section \<open>Loop invariants\<close>


lemma fold_upt_invariant:
  assumes "a \<le> b" and "P a s"
    and "\<And>k s. a \<le> k \<Longrightarrow> k < b \<Longrightarrow> P k s \<Longrightarrow> P (Suc k) (f k s)"
  shows "P b (fold f [a..<b] s)"
  using assms
proof (induction b rule: dec_induct)
  case base
  then show ?case by simp
next
  case (step n)
  have "P n (fold f [a..<n] s)"
    using step.IH step.prems by simp
  then have "P (Suc n) (f n (fold f [a..<n] s))"
    using step.hyps step.prems(2) by simp
  then show ?case
    using step.hyps by simp
qed

lemma count_list_take_Suc:
  "k < length xs \<Longrightarrow> count_list (take (Suc k) xs) i = count_list (take k xs) i + (if xs ! k = i then 1 else 0)"
  by (simp add: take_Suc_conv_app_nth)

lemma row_counts_eq:
  assumes "nnz \<le> length Ai" and "\<forall>k<nnz. Ai ! k < m"
  shows "row_counts Ai nnz (replicate m 0) = map (\<lambda>i. count_list (take nnz Ai) i) [0..<m]"
proof -
  let ?P = "\<lambda>k z. z = map (\<lambda>i. count_list (take k Ai) i) [0..<m]"
  have "?P nnz (fold (\<lambda>i z. z[Ai ! i := z ! (Ai ! i) + 1]) [0..<nnz] (replicate m 0))"
  proof (rule fold_upt_invariant [where P = ?P])
    show "?P 0 (replicate m 0)"
      by (simp add: map_replicate_const)
  next
    fix k z
    assume k: "k < nnz" and z: "?P k z"
    have kl: "k < length Ai" using k assms by simp
    have r: "Ai ! k < m" using k assms by simp
    show "?P (Suc k) (z[Ai ! k := z ! (Ai ! k) + 1])"
      unfolding z using r kl
      by (intro nth_equalityI) (auto simp: nth_list_update count_list_take_Suc)
  qed simp
  then show ?thesis by (simp add: row_counts_def)
qed

lemma cs_cumsum_eq:
  assumes "length c = n" and "length p = Suc n"
  shows "cs_cumsum p c n = (map (\<lambda>i. \<Sum>r<i. c ! r) [0..<Suc n], map (\<lambda>i. \<Sum>r<i. c ! r) [0..<n])"
proof -
  let ?f = "\<lambda>i (p, c, nz). (p[i := nz], c[i := nz], nz + c ! i)"
  let ?S = "\<lambda>i. \<Sum>r<i. c ! r"
  let ?P = "\<lambda>i (p', c', nz). nz = ?S i \<and> length p' = Suc n \<and> length c' = n
               \<and> (\<forall>r<i. p' ! r = ?S r \<and> c' ! r = ?S r) \<and> (\<forall>r. i \<le> r \<and> r < n \<longrightarrow> c' ! r = c ! r)"
  have "?P n (fold ?f [0..<n] (p, c, 0))"
  proof (rule fold_upt_invariant [where P = ?P])
    show "?P 0 (p, c, 0)" using assms by simp
  next
    fix k s
    assume k: "k < n" and s: "?P k s"
    obtain p' c' nz where [simp]: "s = (p', c', nz)" by (cases s)
    from s k show "?P (Suc k) (?f k s)"
      by (auto simp: nth_list_update less_Suc_eq)
  qed simp
  then obtain p' c' nz where f: "fold ?f [0..<n] (p, c, 0) = (p', c', nz)"
    and inv: "nz = ?S n" "length p' = Suc n" "length c' = n"
       "\<forall>r<n. p' ! r = ?S r \<and> c' ! r = ?S r"
    by (cases "fold ?f [0..<n] (p, c, 0)") auto
  have 1: "p'[n := nz] = map ?S [0..<Suc n]"
    using inv by (intro nth_equalityI) (auto simp: nth_list_update less_Suc_eq nth_append simp del: upt_Suc)
  have 2: "c' = map ?S [0..<n]"
    using inv by (intro nth_equalityI) auto
  show ?thesis
    unfolding cs_cumsum_def f using 1 2 by simp
qed

section \<open>Where \<open>transpose\<close> puts an entry\<close>


lemma count_list_take_le: "count_list (take k xs) i \<le> count_list xs i"
proof -
  have "count_list xs i = count_list (take k xs) i + count_list (drop k xs) i"
    by (metis append_take_drop_id count_list_append)
  then show ?thesis by simp
qed

lemma count_list_take_less:
  assumes "k < length xs"
  shows "count_list (take k xs) (xs ! k) < count_list xs (xs ! k)"
proof -
  have "count_list (take (Suc k) xs) (xs ! k) \<le> count_list xs (xs ! k)"
    by (rule count_list_take_le)
  then show ?thesis
    using assms by (simp add: count_list_take_Suc)
qed

lemma count_list_take_mono:
  assumes "k' < k" and "k \<le> length xs"
  shows "count_list (take k' xs) (xs ! k') < count_list (take k xs) (xs ! k')"
proof -
  have "count_list (take k' (take k xs)) (take k xs ! k') < count_list (take k xs) (take k xs ! k')"
    using assms by (intro count_list_take_less) simp
  then show ?thesis
    using assms by (simp add: min_def)
qed

lemma row_start_Suc: "row_start Ai (Suc i) = row_start Ai i + count_list Ai i"
  by (simp add: row_start_def)

lemma row_start_mono: "i \<le> i' \<Longrightarrow> row_start Ai i \<le> row_start Ai i'"
  unfolding row_start_def by (intro sum_mono2) auto

lemma row_start_total:
  assumes "\<forall>r\<in>set Ai. r < m"
  shows "row_start Ai m = length Ai"
  unfolding row_start_def using assms by (intro sum_count_set) auto

lemma dest_lower: "row_start Ai (Ai ! k) \<le> dest Ai k"
  by (simp add: dest_def)

lemma dest_upper: "k < length Ai \<Longrightarrow> dest Ai k < row_start Ai (Suc (Ai ! k))"
  by (simp add: dest_def row_start_Suc count_list_take_less)

lemma dest_less_length:
  assumes "k < length Ai" and "\<forall>r\<in>set Ai. r < m"
  shows "dest Ai k < length Ai"
proof -
  have "Suc (Ai ! k) \<le> m" using assms by (simp add: Suc_le_eq)
  then have "row_start Ai (Suc (Ai ! k)) \<le> row_start Ai m" by (rule row_start_mono)
  with dest_upper [OF assms(1)] row_start_total [OF assms(2)] show ?thesis by simp
qed

lemma dest_neq:
  assumes "k' < k" and "k < length Ai"
  shows "dest Ai k' \<noteq> dest Ai k"
proof (cases "Ai ! k' = Ai ! k")
  case True
  have "count_list (take k' Ai) (Ai ! k') < count_list (take k Ai) (Ai ! k')"
    using assms by (intro count_list_take_mono) simp_all
  then show ?thesis by (simp add: dest_def True)
next
  case False
  then consider "Ai ! k' < Ai ! k" | "Ai ! k < Ai ! k'" by linarith
  then show ?thesis
  proof cases
    case 1
    then have "row_start Ai (Suc (Ai ! k')) \<le> row_start Ai (Ai ! k)"
      by (intro row_start_mono) simp
    moreover have "dest Ai k' < row_start Ai (Suc (Ai ! k'))"
      using assms by (intro dest_upper) simp
    ultimately show ?thesis using dest_lower [of Ai k] by linarith
  next
    case 2
    then have "row_start Ai (Suc (Ai ! k)) \<le> row_start Ai (Ai ! k')"
      by (intro row_start_mono) simp
    moreover have "dest Ai k < row_start Ai (Suc (Ai ! k))"
      using assms by (intro dest_upper) simp
    ultimately show ?thesis using dest_lower [of Ai k'] by linarith
  qed
qed

lemma dest_inj_on: "inj_on (dest Ai) {..<length Ai}"
proof (rule inj_onI)
  fix x y
  assume "x \<in> {..<length Ai}" "y \<in> {..<length Ai}" "dest Ai x = dest Ai y"
  then show "x = y"
    using dest_neq [of x y Ai] dest_neq [of y x Ai]
    by (cases x y rule: linorder_cases) auto
qed

section \<open>The scatter loop\<close>


lemma csc_col_le:
  assumes "valid_csc m n A" and "j \<le> j'" and "j' \<le> n"
  shows "A_p A ! j \<le> A_p A ! j'"
  using assms by (auto simp: valid_csc_def intro: sorted_nth_mono)

lemma csc_col_unique:
  assumes v: "valid_csc m n A" and j: "j < n" "j' < n"
    and k: "A_p A ! j \<le> k" "k < A_p A ! (j + 1)" "A_p A ! j' \<le> k" "k < A_p A ! (j' + 1)"
  shows "j = j'"
proof (rule ccontr)
  assume "j \<noteq> j'"
  then consider "j < j'" | "j' < j" by linarith
  then show False
  proof cases
    case 1
    then have "A_p A ! (j + 1) \<le> A_p A ! j'"
      using j by (intro csc_col_le [OF v]) simp_all
    with k show False by simp
  next
    case 2
    then have "A_p A ! (j' + 1) \<le> A_p A ! j"
      using j by (intro csc_col_le [OF v]) simp_all
    with k show False by simp
  qed
qed

lemma scatter_step:
  assumes v: "valid_csc m n A" and j: "j < n"
    and k: "A_p A ! j \<le> k" "k < A_p A ! (j + 1)"
    and inv: "scatter_inv m n (A_p A) (A_i A) (A_x A) k s"
  shows "scatter_inv m n (A_p A) (A_i A) (A_x A) (Suc k)
           ((\<lambda>(Ci, Cx, z). let q = z ! (A_i A ! k)
                            in (Ci[q := j], Cx[q := A_x A ! k], z[A_i A ! k := q + 1])) s)"
proof -
  let ?Ai = "A_i A" and ?Ap = "A_p A" and ?Ax = "A_x A"
  obtain Ci Cx z where s: "s = (Ci, Cx, z)" by (cases s)
  have "?Ap ! (j + 1) \<le> ?Ap ! n"
    using j by (intro csc_col_le [OF v]) simp_all
  then have kl: "k < length ?Ai"
    using k v by (simp add: valid_csc_def)
  have rows: "\<forall>r\<in>set ?Ai. r < m" using v by (simp add: valid_csc_def)
  then have r: "?Ai ! k < m" using kl by simp
  from inv have len: "length Ci = length ?Ai" "length Cx = length ?Ai" "length z = m"
    and cur: "\<And>i. i < m \<Longrightarrow> z ! i = row_start ?Ai i + count_list (take k ?Ai) i"
    and old: "\<And>j' k'. j' < n \<Longrightarrow> ?Ap ! j' \<le> k' \<Longrightarrow> k' < ?Ap ! (j' + 1) \<Longrightarrow> k' < k
                \<Longrightarrow> Ci ! dest ?Ai k' = j' \<and> Cx ! dest ?Ai k' = ?Ax ! k'"
    by (auto simp: scatter_inv_def s)
  have q: "z ! (?Ai ! k) = dest ?Ai k"
    using cur [OF r] by (simp add: dest_def)
  have ql: "dest ?Ai k < length ?Ai"
    using kl rows by (rule dest_less_length)
  have cur': "(z[?Ai ! k := dest ?Ai k + 1]) ! i = row_start ?Ai i + count_list (take (Suc k) ?Ai) i"
    if "i < m" for i
    using that cur [OF that] len kl
    by (auto simp: nth_list_update count_list_take_Suc dest_def)
  have new: "Ci[dest ?Ai k := j] ! dest ?Ai k' = j' \<and> Cx[dest ?Ai k := ?Ax ! k] ! dest ?Ai k' = ?Ax ! k'"
    if "j' < n" "?Ap ! j' \<le> k'" "k' < ?Ap ! (j' + 1)" "k' < Suc k" for j' k'
  proof (cases "k' = k")
    case True
    then have "j' = j"
      using csc_col_unique [OF v that(1) j] that k by simp
    with True ql len show ?thesis by simp
  next
    case False
    then have lt: "k' < k" using that by simp
    then have "dest ?Ai k' \<noteq> dest ?Ai k" using kl by (intro dest_neq)
    then show ?thesis using old [OF that(1-3) lt] by simp
  qed
  show ?thesis
    unfolding s using len cur' new
    by (simp add: scatter_inv_def q Let_def)
qed

lemma scatter_correct:
  assumes v: "valid_csc m n A"
    and s0: "scatter_inv m n (A_p A) (A_i A) (A_x A) 0 s"
  shows "scatter_inv m n (A_p A) (A_i A) (A_x A) (A_p A ! n) (scatter n (A_p A) (A_i A) (A_x A) s)"
proof -
  let ?Ai = "A_i A" and ?Ap = "A_p A" and ?Ax = "A_x A"
  let ?step = "\<lambda>j i (Ci, Cx, z). let q = z ! (?Ai ! i)
                                   in (Ci[q := j], Cx[q := ?Ax ! i], z[?Ai ! i := q + 1])"
  let ?Q = "\<lambda>j s. scatter_inv m n ?Ap ?Ai ?Ax (?Ap ! j) s"
  have "?Q n (fold (\<lambda>j. fold (?step j) [?Ap ! j ..< ?Ap ! (j + 1)]) [0..<n] s)"
  proof (rule fold_upt_invariant [where P = ?Q])
    show "?Q 0 s" using s0 v by (simp add: valid_csc_def)
  next
    fix j s'
    assume j: "j < n" and q: "?Q j s'"
    have le: "?Ap ! j \<le> ?Ap ! (j + 1)"
      using j by (intro csc_col_le [OF v]) simp_all
    have "scatter_inv m n ?Ap ?Ai ?Ax (?Ap ! (j + 1)) (fold (?step j) [?Ap ! j ..< ?Ap ! (j + 1)] s')"
    proof (rule fold_upt_invariant [where P = "scatter_inv m n ?Ap ?Ai ?Ax"])
      show "?Ap ! j \<le> ?Ap ! (j + 1)" by (rule le)
      show "scatter_inv m n ?Ap ?Ai ?Ax (?Ap ! j) s'" by (rule q)
    next
      fix k s''
      assume "?Ap ! j \<le> k" "k < ?Ap ! (j + 1)" "scatter_inv m n ?Ap ?Ai ?Ax k s''"
      then show "scatter_inv m n ?Ap ?Ai ?Ax (Suc k) (?step j k s'')"
        using scatter_step [OF v j] by simp
    qed
    then show "?Q (Suc j) (fold (?step j) [?Ap ! j ..< ?Ap ! (j + 1)] s')" by simp
  qed simp
  then show ?thesis by (simp add: scatter_def)
qed

section \<open>The arrays that \<open>transpose\<close> builds\<close>


lemma sum_map_nth_upt:
  assumes "i \<le> m"
  shows "(\<Sum>r<i. map f [0..<m] ! r) = (\<Sum>r<i. f r)"
  using assms by (intro sum.cong) auto

lemma transpose_arrays_correct:
  assumes v: "valid_csc m n A"
    and len: "length Ci0 = A_p A ! n" "length Cp0 = m + 1" "length Cx0 = A_p A ! n"
  shows "\<exists>Ci Cx. transpose_arrays m n A Ci0 Cp0 Cx0 (replicate m 0)
                   = (Ci, map (row_start (A_i A)) [0..<Suc m], Cx)
           \<and> length Ci = A_p A ! n \<and> length Cx = A_p A ! n
           \<and> (\<forall>j<n. \<forall>k. A_p A ! j \<le> k \<and> k < A_p A ! (j + 1)
                 \<longrightarrow> Ci ! dest (A_i A) k = j \<and> Cx ! dest (A_i A) k = A_x A ! k)"
proof -
  let ?Ai = "A_i A" and ?Ap = "A_p A" and ?Ax = "A_x A"
  let ?nnz = "?Ap ! n"
  have lenAi: "length ?Ai = ?nnz" and rows: "\<forall>r\<in>set ?Ai. r < m"
    using v by (simp_all add: valid_csc_def)
  have rc: "row_counts ?Ai ?nnz (replicate m 0) = map (count_list ?Ai) [0..<m]"
    using row_counts_eq [of ?nnz ?Ai m] lenAi rows by simp
  have cum: "cs_cumsum Cp0 (map (count_list ?Ai) [0..<m]) m
               = (map (row_start ?Ai) [0..<Suc m], map (row_start ?Ai) [0..<m])"
    using cs_cumsum_eq [of "map (count_list ?Ai) [0..<m]" m Cp0] len
    by (simp add: row_start_def sum_map_nth_upt del: upt_Suc)
  have s0: "scatter_inv m n ?Ap ?Ai ?Ax 0 (Ci0, Cx0, map (row_start ?Ai) [0..<m])"
    using len lenAi by (simp add: scatter_inv_def)
  obtain Ci Cx z where sc: "scatter n ?Ap ?Ai ?Ax (Ci0, Cx0, map (row_start ?Ai) [0..<m]) = (Ci, Cx, z)"
    by (cases "scatter n ?Ap ?Ai ?Ax (Ci0, Cx0, map (row_start ?Ai) [0..<m])")
  have inv: "scatter_inv m n ?Ap ?Ai ?Ax ?nnz (Ci, Cx, z)"
    using scatter_correct [OF v s0] sc by simp
  have res: "transpose_arrays m n A Ci0 Cp0 Cx0 (replicate m 0)
               = (Ci, map (row_start ?Ai) [0..<Suc m], Cx)"
    by (simp add: transpose_arrays_def Let_def rc cum sc del: upt_Suc)
  have ent: "Ci ! dest ?Ai k = j \<and> Cx ! dest ?Ai k = ?Ax ! k"
    if "j < n" "?Ap ! j \<le> k" "k < ?Ap ! (j + 1)" for j k
  proof -
    have "?Ap ! (j + 1) \<le> ?nnz" using that by (intro csc_col_le [OF v]) simp_all
    then have "k < ?nnz" using that by simp
    with inv that show ?thesis by (simp add: scatter_inv_def)
  qed
  from inv have "length Ci = ?nnz" "length Cx = ?nnz"
    by (simp_all add: scatter_inv_def lenAi)
  with res ent show ?thesis by blast
qed

lemma csc_col_exists:
  assumes "Xp ! 0 \<le> (k :: nat)" and "k < Xp ! n"
  shows "\<exists>j<n. Xp ! j \<le> k \<and> k < Xp ! (j + 1)"
  using assms
proof (induction n)
  case 0
  then show ?case by simp
next
  case (Suc n)
  show ?case
  proof (cases "k < Xp ! n")
    case True
    with Suc obtain j where "j < n" "Xp ! j \<le> k \<and> k < Xp ! (j + 1)" by blast
    then show ?thesis by (intro exI [of _ j]) simp
  next
    case False
    with Suc.prems show ?thesis by (intro exI [of _ n]) simp
  qed
qed

lemma concat_slices:
  assumes "\<forall>j<n. Xp ! j \<le> Xp ! (Suc j)"
    and "\<forall>j<n. \<forall>k. Xp ! j \<le> k \<and> k < Xp ! (Suc j) \<longrightarrow> c k = j"
  shows "concat (map (\<lambda>j. map (f j) [Xp ! j ..< Xp ! (Suc j)]) [0..<n])
           = map (\<lambda>k. f (c k) k) [Xp ! 0 ..< Xp ! n]"
  using assms
proof (induction n)
  case 0
  then show ?case by simp
next
  case (Suc n)
  have le0: "Xp ! 0 \<le> Xp ! n"
    using Suc.prems(1) by (induction n) (auto intro: order_trans)
  have le1: "Xp ! n \<le> Xp ! (Suc n)" using Suc.prems(1) by simp
  have split: "[Xp ! 0 ..< Xp ! (Suc n)] = [Xp ! 0 ..< Xp ! n] @ [Xp ! n ..< Xp ! (Suc n)]"
    using le0 le1 by (metis le_Suc_ex upt_add_eq_append)
  have last: "map (f n) [Xp ! n ..< Xp ! (Suc n)] = map (\<lambda>k. f (c k) k) [Xp ! n ..< Xp ! (Suc n)]"
    using Suc.prems(2) by (intro map_cong) auto
  have "concat (map (\<lambda>j. map (f j) [Xp ! j ..< Xp ! (Suc j)]) [0..<n])
          = map (\<lambda>k. f (c k) k) [Xp ! 0 ..< Xp ! n]"
    using Suc.prems by (intro Suc.IH) auto
  then show ?case
    by (simp add: split last)
qed

lemma csc_entries_flat:
  assumes v: "valid_csc m n A"
    and c: "\<forall>k<A_p A ! n. c k < n \<and> A_p A ! c k \<le> k \<and> k < A_p A ! (c k + 1)"
  shows "csc_entries n A = map (\<lambda>k. (A_i A ! k, c k, A_x A ! k)) [0..<A_p A ! n]"
proof -
  have mono: "\<forall>j<n. A_p A ! j \<le> A_p A ! (Suc j)"
    using csc_col_le [OF v] by simp
  have uniq: "\<forall>j<n. \<forall>k. A_p A ! j \<le> k \<and> k < A_p A ! (Suc j) \<longrightarrow> c k = j"
  proof (intro allI impI)
    fix j k
    assume j: "j < n" and k: "A_p A ! j \<le> k \<and> k < A_p A ! (Suc j)"
    have "A_p A ! (Suc j) \<le> A_p A ! n" using j by (intro csc_col_le [OF v]) simp_all
    then have "k < A_p A ! n" using k by simp
    with c have "c k < n" "A_p A ! c k \<le> k" "k < A_p A ! (c k + 1)" by simp_all
    then show "c k = j"
      using csc_col_unique [OF v _ j, of "c k" k] k by simp
  qed
  have z: "A_p A ! 0 = 0" using v by (simp add: valid_csc_def)
  show ?thesis
    unfolding csc_entries_def
    using concat_slices [OF mono uniq, of "\<lambda>j k. (A_i A ! k, j, A_x A ! k)"]
    by (simp add: z)
qed



lemma dest_image:
  assumes "\<forall>r\<in>set Ai. r < m"
  shows "dest Ai ` {..<length Ai} = {..<length Ai}"
proof (rule endo_inj_surj)
  show "finite {..<length Ai}" by simp
  show "dest Ai ` {..<length Ai} \<subseteq> {..<length Ai}"
    using dest_less_length [OF _ assms] by auto
  show "inj_on (dest Ai) {..<length Ai}" by (rule dest_inj_on)
qed

lemma row_start_upt_nth: "i \<le> m \<Longrightarrow> map (row_start Ai) [0..<Suc m] ! i = row_start Ai i"
  using nth_map_upt [of i "Suc m" 0 "row_start Ai"] by simp

lemma transposed_valid:
  assumes v: "valid_csc m n A"
    and len: "length Ci = A_p A ! n" "length Cx = A_p A ! n"
    and ent: "\<forall>j<n. \<forall>k. A_p A ! j \<le> k \<and> k < A_p A ! (j + 1) \<longrightarrow> Ci ! dest (A_i A) k = j"
  shows "valid_csc n m \<lparr>A_x = Cx, A_i = Ci, A_p = map (row_start (A_i A)) [0..<Suc m]\<rparr>"
proof -
  let ?Ai = "A_i A" and ?Ap = "A_p A"
  let ?Cp = "map (row_start ?Ai) [0..<Suc m]"
  have lenAi: "length ?Ai = ?Ap ! n" and rows: "\<forall>r\<in>set ?Ai. r < m" and z: "?Ap ! 0 = 0"
    using v by (simp_all add: valid_csc_def)
  have "sorted ?Cp"
    unfolding sorted_iff_nth_mono
  proof (intro allI impI)
    fix i j
    assume "i \<le> j" "j < length ?Cp"
    then show "?Cp ! i \<le> ?Cp ! j"
      using row_start_upt_nth [of i m ?Ai] row_start_upt_nth [of j m ?Ai]
      by (simp add: row_start_mono del: upt_Suc)
  qed
  moreover have "?Cp ! 0 = 0"
    using row_start_upt_nth [of 0 m ?Ai] by (simp add: row_start_def del: upt_Suc)
  moreover have total: "?Cp ! m = ?Ap ! n"
    using row_start_upt_nth [of m m ?Ai] row_start_total [OF rows] lenAi by (simp del: upt_Suc)
  moreover have "\<forall>r\<in>set Ci. r < n"
  proof
    fix r
    assume "r \<in> set Ci"
    then obtain q where q: "q < length Ci" "r = Ci ! q" by (auto simp: in_set_conv_nth)
    then have "q \<in> dest ?Ai ` {..<length ?Ai}"
      using dest_image [OF rows] len lenAi by simp
    then obtain k where k: "k < length ?Ai" "q = dest ?Ai k" by auto
    then obtain j where "j < n" "?Ap ! j \<le> k \<and> k < ?Ap ! (j + 1)"
      using csc_col_exists [of ?Ap k n] z lenAi by auto
    then show "r < n" using ent q k by auto
  qed
  ultimately show ?thesis
    using len by (simp add: valid_csc_def del: upt_Suc)
qed

lemma transposed_entries:
  assumes v: "valid_csc m n A"
    and len: "length Ci = A_p A ! n" "length Cx = A_p A ! n"
    and ent: "\<forall>j<n. \<forall>k. A_p A ! j \<le> k \<and> k < A_p A ! (j + 1)
                 \<longrightarrow> Ci ! dest (A_i A) k = j \<and> Cx ! dest (A_i A) k = A_x A ! k"
  shows "mset (csc_entries m \<lparr>A_x = Cx, A_i = Ci, A_p = map (row_start (A_i A)) [0..<Suc m]\<rparr>)
           = image_mset (\<lambda>(i, j, v). (j, i, v)) (mset (csc_entries n A))"
proof -
  let ?Ai = "A_i A" and ?Ap = "A_p A" and ?Ax = "A_x A"
  let ?nnz = "?Ap ! n"
  define Cp where "Cp = map (row_start ?Ai) [0..<Suc m]"
  define At where "At = \<lparr>A_x = Cx, A_i = Ci, A_p = Cp\<rparr>"
  have At: "A_p At = Cp" "A_i At = Ci" "A_x At = Cx" by (simp_all add: At_def)
  have Cp_nth: "Cp ! i = row_start ?Ai i" if "i \<le> m" for i
    unfolding Cp_def using that by (rule row_start_upt_nth)
  have lenAi: "length ?Ai = ?nnz" and rows: "\<forall>r\<in>set ?Ai. r < m" and z: "?Ap ! 0 = 0"
    using v by (simp_all add: valid_csc_def)
  have vt: "valid_csc n m At"
    unfolding At_def Cp_def using ent by (intro transposed_valid [OF v len]) blast
  have total: "Cp ! m = ?nnz" and zt: "Cp ! 0 = 0"
    using vt len by (simp_all add: valid_csc_def At)
  have "\<forall>k\<in>{..<?nnz}. \<exists>j. j < n \<and> ?Ap ! j \<le> k \<and> k < ?Ap ! (j + 1)"
    using csc_col_exists [of ?Ap _ n] z by auto
  then obtain cA where cA: "\<forall>k\<in>{..<?nnz}. cA k < n \<and> ?Ap ! cA k \<le> k \<and> k < ?Ap ! (cA k + 1)"
    by (rule bchoice [THEN exE])
  have "\<forall>q\<in>{..<?nnz}. \<exists>i. i < m \<and> Cp ! i \<le> q \<and> q < Cp ! (i + 1)"
    using csc_col_exists [of Cp _ m] zt total by auto
  then obtain cC where cC: "\<forall>q\<in>{..<?nnz}. cC q < m \<and> Cp ! cC q \<le> q \<and> q < Cp ! (cC q + 1)"
    by (rule bchoice [THEN exE])
  have flatA: "csc_entries n A = map (\<lambda>k. (?Ai ! k, cA k, ?Ax ! k)) [0..<?nnz]"
    using cA by (intro csc_entries_flat [OF v]) simp
  have "\<forall>k<A_p At ! m. cC k < m \<and> A_p At ! cC k \<le> k \<and> k < A_p At ! (cC k + 1)"
    using cC by (simp add: At total)
  then have "csc_entries m At = map (\<lambda>k. (A_i At ! k, cC k, A_x At ! k)) [0..<A_p At ! m]"
    by (rule csc_entries_flat [OF vt])
  then have flatC: "csc_entries m At = map (\<lambda>q. (Ci ! q, cC q, Cx ! q)) [0..<?nnz]"
    by (simp add: At total)
  have key: "(Ci ! dest ?Ai k, cC (dest ?Ai k), Cx ! dest ?Ai k) = (cA k, ?Ai ! k, ?Ax ! k)"
    if "k < ?nnz" for k
  proof -
    have kl: "k < length ?Ai" using that lenAi by simp
    have r: "?Ai ! k < m" using kl rows by simp
    have dl: "dest ?Ai k < ?nnz" using dest_less_length [OF kl rows] lenAi by simp
    have "cA k < n" "?Ap ! cA k \<le> k \<and> k < ?Ap ! (cA k + 1)"
      using cA that by simp_all
    with ent have 1: "Ci ! dest ?Ai k = cA k \<and> Cx ! dest ?Ai k = ?Ax ! k"
      by blast
    have lo: "A_p At ! (?Ai ! k) \<le> dest ?Ai k"
      using Cp_nth [of "?Ai ! k"] r dest_lower [of ?Ai k] by (simp add: At)
    have hi: "dest ?Ai k < A_p At ! (?Ai ! k + 1)"
      using Cp_nth [of "Suc (?Ai ! k)"] r dest_upper [OF kl] by (simp add: At)
    have c: "cC (dest ?Ai k) < m" "A_p At ! cC (dest ?Ai k) \<le> dest ?Ai k"
      "dest ?Ai k < A_p At ! (cC (dest ?Ai k) + 1)"
      using cC dl by (simp_all add: At)
    have "cC (dest ?Ai k) = ?Ai ! k"
      using c(2,3) lo hi by (intro csc_col_unique [OF vt c(1) r])
    with 1 show ?thesis by simp
  qed
  have S: "mset [0..<?nnz] = mset_set {..<?nnz}"
    by (simp add: atLeast0LessThan)
  have im: "image_mset (dest ?Ai) (mset_set {..<?nnz}) = mset_set {..<?nnz}"
    using image_mset_mset_set [OF dest_inj_on [of ?Ai]] dest_image [OF rows] lenAi by simp
  have "mset (csc_entries m At) = image_mset (\<lambda>q. (Ci ! q, cC q, Cx ! q)) (mset_set {..<?nnz})"
    unfolding flatC by (simp only: mset_map S)
  also have "\<dots> = image_mset (\<lambda>q. (Ci ! q, cC q, Cx ! q))
                      (image_mset (dest ?Ai) (mset_set {..<?nnz}))"
    by (simp only: im)
  also have "\<dots> = image_mset (\<lambda>k. (Ci ! dest ?Ai k, cC (dest ?Ai k), Cx ! dest ?Ai k))
                      (mset_set {..<?nnz})"
    by (simp add: image_mset.compositionality comp_def)
  also have "\<dots> = image_mset (\<lambda>k. (cA k, ?Ai ! k, ?Ax ! k)) (mset_set {..<?nnz})"
    using key by (intro image_mset_cong) simp
  also have "\<dots> = image_mset (\<lambda>(i, j, v). (j, i, v)) (mset (csc_entries n A))"
    unfolding flatA by (simp only: mset_map S) (simp add: image_mset.compositionality comp_def)
  finally show ?thesis by (simp only: At_def Cp_def)
qed

section \<open>The sparse products, cell by cell\<close>

text \<open>
  The loops of \<open>_accumByAtrans\<close> and \<open>addScaledArray\<close>, cell by cell. Nothing in this
  section uses a law of arithmetic: the sums are taken in the order of the loops.
\<close>

lemma accumByAtrans_core_nth:
  assumes "length y = n"
  shows "accumByAtrans_core n Ax Ai Ap x y
           = map (\<lambda>j. fold (\<lambda>p yj. yj + Ax ! p * x ! (Ai ! p)) [Ap ! j ..< Ap ! (j + 1)] (y ! j))
                 [0..<n]"
proof (rule nth_equalityI)
  let ?g = "\<lambda>j (yj :: pfloat). fold (\<lambda>p yj. yj + Ax ! p * x ! (Ai ! p)) [Ap ! j ..< Ap ! (j + 1)] yj"
  have len: "length (accumByAtrans_core n Ax Ai Ap x y) = n"
    unfolding accumByAtrans_core_def
    using assms fold_update_length [where h = "\<lambda>j y. ?g j (y ! j)"] by simp
  then show "length (accumByAtrans_core n Ax Ai Ap x y) = length (map (\<lambda>j. ?g j (y ! j)) [0..<n])"
    by simp
  fix j
  assume "j < length (accumByAtrans_core n Ax Ai Ap x y)"
  then have j: "j < n" using len by simp
  show "accumByAtrans_core n Ax Ai Ap x y ! j = map (\<lambda>j. ?g j (y ! j)) [0..<n] ! j"
    unfolding accumByAtrans_core_def
    using fold_update_nth [where h = ?g and j = j and ?a0.0 = y and n = n] assms j
    by simp
qed

lemma addScaledArray_nth:
  assumes "length a = n"
  shows "addScaledArray a b n sc = map (\<lambda>j. a ! j + sc * b ! j) [0..<n]"
proof (rule nth_equalityI)
  let ?g = "\<lambda>j (aj :: pfloat). aj + sc * b ! j"
  have len: "length (addScaledArray a b n sc) = n"
    unfolding addScaledArray_def
    using assms fold_update_length [where h = "\<lambda>j a. ?g j (a ! j)"] by simp
  then show "length (addScaledArray a b n sc) = length (map (\<lambda>j. a ! j + sc * b ! j) [0..<n])"
    by simp
  fix j
  assume "j < length (addScaledArray a b n sc)"
  then have j: "j < n" using len by simp
  show "addScaledArray a b n sc ! j = map (\<lambda>j. a ! j + sc * b ! j) [0..<n] ! j"
    unfolding addScaledArray_def
    using fold_update_nth [where h = ?g and j = j and ?a0.0 = a and n = n] assms j
    by simp
qed

lemma memset0_whole: "length y = n \<Longrightarrow> memset0 y n = replicate n 0"
  by (simp add: memset0_def)

lemma filter_column:
  "filter (\<lambda>(r, c, v). c = j) (csc_entries n A)
     = (if j < n then map (\<lambda>k. (A_i A ! k, j, A_x A ! k)) [A_p A ! j ..< A_p A ! (j + 1)]
        else [])"
proof (induction n)
  case 0
  then show ?case by (simp add: csc_entries_def)
next
  case (Suc n)
  have step: "csc_entries (Suc n) A
      = csc_entries n A @ map (\<lambda>k. (A_i A ! k, n, A_x A ! k)) [A_p A ! n ..< A_p A ! (n + 1)]"
    by (simp add: csc_entries_def)
  have last: "filter (\<lambda>(r, c, v). c = j)
                (map (\<lambda>k. (A_i A ! k, n, A_x A ! k)) [A_p A ! n ..< A_p A ! (n + 1)])
      = (if n = j then map (\<lambda>k. (A_i A ! k, j, A_x A ! k)) [A_p A ! j ..< A_p A ! (j + 1)]
         else [])"
    by (simp add: filter_map comp_def)
  show ?case
    unfolding step filter_append Suc.IH last by auto
qed

lemma csc_tmult_slice:
  assumes "j < n"
  shows "csc_tmult n A t j
           = fold (\<lambda>k s. s + A_x A ! k * t ! (A_i A ! k)) [A_p A ! j ..< A_p A ! (j + 1)] 0"
  using assms by (simp add: csc_tmult_def filter_column fold_map comp_def)


text \<open>
  \<open>transpose\<close> keeps the entries of a row in the order in which \<open>A\<close> stores them.
\<close>

lemma dest_filter:
  assumes "K \<le> length Ai"
  shows "map (dest Ai) (filter (\<lambda>k. Ai ! k = i) [0..<K])
           = [row_start Ai i ..< row_start Ai i + count_list (take K Ai) i]"
  using assms
proof (induction K)
  case 0
  then show ?case by simp
next
  case (Suc K)
  then have K: "K < length Ai" by simp
  have tk: "take (Suc K) Ai = take K Ai @ [Ai ! K]"
    using K by (rule take_Suc_conv_app_nth)
  have IH: "map (dest Ai) (filter (\<lambda>k. Ai ! k = i) [0..<K])
           = [row_start Ai i ..< row_start Ai i + count_list (take K Ai) i]"
    using Suc by simp
  show ?case
  proof (cases "Ai ! K = i")
    case True
    then have "dest Ai K = row_start Ai i + count_list (take K Ai) i"
      by (simp add: dest_def)
    with True IH show ?thesis by (simp add: tk)
  next
    case False
    with IH show ?thesis by (simp add: tk)
  qed
qed

lemma row_slice:
  "[row_start Ai i ..< row_start Ai (Suc i)]
     = map (dest Ai) (filter (\<lambda>k. Ai ! k = i) [0..<length Ai])"
  using dest_filter [of "length Ai" Ai i] by (simp add: row_start_Suc)

lemma csc_mult_cache:
  assumes v: "valid_csc m n A"
    and ent: "\<forall>j<n. \<forall>k. A_p A ! j \<le> k \<and> k < A_p A ! (j + 1)
                 \<longrightarrow> Ci ! dest (A_i A) k = j \<and> Cx ! dest (A_i A) k = A_x A ! k"
  shows "fold (\<lambda>q s. s + Cx ! q * x ! (Ci ! q))
              [row_start (A_i A) i ..< row_start (A_i A) (Suc i)] 0
           = csc_mult n A x i"
proof -
  let ?Ai = "A_i A" and ?Ap = "A_p A" and ?Ax = "A_x A"
  let ?nnz = "?Ap ! n"
  let ?F = "filter (\<lambda>k. ?Ai ! k = i) [0..<?nnz]"
  have lenAi: "length ?Ai = ?nnz" and z: "?Ap ! 0 = 0"
    using v by (simp_all add: valid_csc_def)
  have "\<forall>k\<in>{..<?nnz}. \<exists>j. j < n \<and> ?Ap ! j \<le> k \<and> k < ?Ap ! (j + 1)"
    using csc_col_exists [of ?Ap _ n] z by auto
  then obtain cA where cA: "\<forall>k\<in>{..<?nnz}. cA k < n \<and> ?Ap ! cA k \<le> k \<and> k < ?Ap ! (cA k + 1)"
    by (rule bchoice [THEN exE])
  have flatA: "csc_entries n A = map (\<lambda>k. (?Ai ! k, cA k, ?Ax ! k)) [0..<?nnz]"
    using cA by (intro csc_entries_flat [OF v]) simp
  have rowi: "filter (\<lambda>(r, c, v). r = i) (csc_entries n A)
                = map (\<lambda>k. (?Ai ! k, cA k, ?Ax ! k)) ?F"
    unfolding flatA by (simp add: filter_map comp_def)
  have "fold (\<lambda>q s. s + Cx ! q * x ! (Ci ! q)) [row_start ?Ai i ..< row_start ?Ai (Suc i)] 0
          = fold (\<lambda>q s. s + Cx ! q * x ! (Ci ! q)) (map (dest ?Ai) ?F) 0"
    using row_slice [of ?Ai i] lenAi by simp
  also have "\<dots> = fold (\<lambda>k s. s + Cx ! dest ?Ai k * x ! (Ci ! dest ?Ai k)) ?F 0"
    by (simp add: fold_map comp_def)
  also have "\<dots> = fold (\<lambda>k s. s + ?Ax ! k * x ! cA k) ?F 0"
  proof (rule fold_cong [OF refl refl])
    fix k
    assume "k \<in> set ?F"
    then have "k < ?nnz" by simp
    with cA have "cA k < n" "?Ap ! cA k \<le> k \<and> k < ?Ap ! (cA k + 1)" by simp_all
    with ent have "Ci ! dest ?Ai k = cA k \<and> Cx ! dest ?Ai k = ?Ax ! k" by blast
    then show "(\<lambda>s. s + Cx ! dest ?Ai k * x ! (Ci ! dest ?Ai k)) = (\<lambda>s. s + ?Ax ! k * x ! cA k)"
      by simp
  qed
  also have "\<dots> = csc_mult n A x i"
    unfolding csc_mult_def rowi by (simp add: fold_map comp_def)
  finally show ?thesis .
qed

text \<open>
  With the arrays that \<open>transpose\<close> built, whatever \<open>tmp\<close> and \<open>y\<close> hold at the call.
\<close>

lemma matVec_products:
  assumes v: "valid_csc (d_m d) (d_n d) (d_A d)"
    and tmp: "priv_tmp p = Some t0" "length t0 = d_m d"
    and cache: "Ati p = Some Ci" "Atp p = Some Cp" "Atx p = Some Cx"
    and ta: "transpose_arrays (d_m d) (d_n d) (d_A d) Ci0 Cp0 Cx0 (replicate (d_m d) 0)
               = (Ci, Cp, Cx)"
    and len: "length Ci0 = A_p (d_A d) ! d_n d" "length Cp0 = d_m d + 1"
      "length Cx0 = A_p (d_A d) ! d_n d"
    and y: "length y = d_n d"
  shows "matVec d p x y
           = map (\<lambda>j. csc_tmult (d_n d) (d_A d) (map (csc_mult (d_n d) (d_A d) x) [0..<d_m d]) j
                       + RHO_X d * x ! j)
                 [0..<d_n d]"
proof -
  let ?A = "d_A d" and ?m = "d_m d" and ?n = "d_n d"
  let ?Ai = "A_i ?A"
  from transpose_arrays_correct [OF v len] ta
  have Cp: "Cp = map (row_start ?Ai) [0..<Suc ?m]"
    and ent: "\<forall>j<?n. \<forall>k. A_p ?A ! j \<le> k \<and> k < A_p ?A ! (j + 1)
                 \<longrightarrow> Ci ! dest ?Ai k = j \<and> Cx ! dest ?Ai k = A_x ?A ! k"
    by auto
  let ?t = "map (csc_mult ?n ?A x) [0..<?m]"
  have t: "accumByA d p x (memset0 t0 ?m) = ?t"
  proof -
    have "accumByA d p x (memset0 t0 ?m)
            = map (\<lambda>i. fold (\<lambda>q s. s + Cx ! q * x ! (Ci ! q)) [Cp ! i ..< Cp ! (i + 1)]
                           (replicate ?m 0 ! i)) [0..<?m]"
      using tmp by (simp add: accumByA_def cache memset0_whole accumByAtrans_core_nth)
    also have "\<dots> = ?t"
    proof (rule map_cong [OF refl])
      fix i
      assume "i \<in> set [0..<?m]"
      then have i: "i < ?m" by simp
      then have "Cp ! i = row_start ?Ai i" "Cp ! (i + 1) = row_start ?Ai (Suc i)"
        unfolding Cp using row_start_upt_nth [of i ?m ?Ai] row_start_upt_nth [of "Suc i" ?m ?Ai]
        by simp_all
      then show "fold (\<lambda>q s. s + Cx ! q * x ! (Ci ! q)) [Cp ! i ..< Cp ! (i + 1)]
                   (replicate ?m 0 ! i) = csc_mult ?n ?A x i"
        using csc_mult_cache [OF v ent, of x i] i by simp
    qed
    finally show ?thesis .
  qed
  have u: "accumByAtrans d p ?t (memset0 y ?n) = map (csc_tmult ?n ?A ?t) [0..<?n]"
  proof -
    have "accumByAtrans d p ?t (memset0 y ?n)
            = map (\<lambda>j. fold (\<lambda>k s. s + A_x ?A ! k * ?t ! (A_i ?A ! k))
                           [A_p ?A ! j ..< A_p ?A ! (j + 1)] (replicate ?n 0 ! j)) [0..<?n]"
      using y by (simp add: accumByAtrans_def Let_def memset0_whole accumByAtrans_core_nth)
    also have "\<dots> = map (csc_tmult ?n ?A ?t) [0..<?n]"
      by (rule map_cong [OF refl]) (simp add: csc_tmult_slice)
    finally show ?thesis .
  qed
  have "matVec d p x y = addScaledArray (map (csc_tmult ?n ?A ?t) [0..<?n]) x ?n (RHO_X d)"
    using tmp by (simp add: matVec_def Let_def t u)
  also have "\<dots> = map (\<lambda>j. map (csc_tmult ?n ?A ?t) [0..<?n] ! j + RHO_X d * x ! j) [0..<?n]"
    by (rule addScaledArray_nth) simp
  also have "\<dots> = map (\<lambda>j. csc_tmult ?n ?A ?t j + RHO_X d * x ! j) [0..<?n]"
    by (rule map_cong [OF refl]) simp
  finally show ?thesis .
qed

text \<open>On finite values, the products with the zero vector are zero.\<close>

lemma is_finite_iff: "is_finite a = (\<exists>r. a = Fin r)"
  by (cases a) (simp_all add: is_finite_def)

lemma csc_entries_mem:
  assumes v: "valid_csc m n A" and e: "(r, c, a) \<in> set (csc_entries n A)"
  shows "r < m \<and> c < n \<and> a \<in> set (A_x A)"
proof -
  from e obtain k where c: "c < n" and k: "A_p A ! c \<le> k" "k < A_p A ! (c + 1)"
    and r: "r = A_i A ! k" and a: "a = A_x A ! k"
    by (auto simp: csc_entries_def)
  have "A_p A ! (c + 1) \<le> A_p A ! n" using c by (intro csc_col_le [OF v]) simp_all
  then have "k < length (A_i A)" "k < length (A_x A)"
    using k v by (simp_all add: valid_csc_def)
  then show ?thesis using v c r a by (simp add: valid_csc_def)
qed

lemma fold_add_zero:
  assumes "\<forall>e\<in>set es. f e = Fin 0"
  shows "fold (\<lambda>e s. s + f e) es (Fin 0) = Fin 0"
  using assms by (induction es) simp_all

lemma csc_mult_zero:
  assumes v: "valid_csc m n A" and fin: "\<forall>a\<in>set (A_x A). is_finite a"
  shows "csc_mult n A (replicate n 0) i = 0"
proof -
  let ?f = "\<lambda>(r :: nat, c, a). a * replicate n (0 :: pfloat) ! c"
  have f: "(\<lambda>(r :: nat, c, a) s. s + a * replicate n (0 :: pfloat) ! c) = (\<lambda>e s. s + ?f e)"
    by (auto simp: fun_eq_iff)
  have "\<forall>e\<in>set (filter (\<lambda>(r, c, a). r = i) (csc_entries n A)). ?f e = Fin 0"
  proof
    fix e
    assume "e \<in> set (filter (\<lambda>(r, c, a). r = i) (csc_entries n A))"
    then have mem: "e \<in> set (csc_entries n A)" by simp
    obtain r c a where e1: "e = (r, c, a)" by (cases e) auto
    note e = e1 mem [unfolded e1]
    from csc_entries_mem [OF v e(2)] fin obtain x where "c < n" "a = Fin x"
      by (auto simp: is_finite_iff)
    then show "?f e = Fin 0" by (simp add: e zero_pfloat_def)
  qed
  then show ?thesis
    unfolding csc_mult_def f by (simp add: zero_pfloat_def fold_add_zero)
qed

lemma csc_tmult_zero:
  assumes v: "valid_csc m n A" and fin: "\<forall>a\<in>set (A_x A). is_finite a"
  shows "csc_tmult n A (replicate m 0) j = 0"
proof -
  let ?f = "\<lambda>(r, c :: nat, a). a * replicate m (0 :: pfloat) ! r"
  have f: "(\<lambda>(r, c :: nat, a) s. s + a * replicate m (0 :: pfloat) ! r) = (\<lambda>e s. s + ?f e)"
    by (auto simp: fun_eq_iff)
  have "\<forall>e\<in>set (filter (\<lambda>(r, c, a). c = j) (csc_entries n A)). ?f e = Fin 0"
  proof
    fix e
    assume "e \<in> set (filter (\<lambda>(r, c, a). c = j) (csc_entries n A))"
    then have mem: "e \<in> set (csc_entries n A)" by simp
    obtain r c a where e1: "e = (r, c, a)" by (cases e) auto
    note e = e1 mem [unfolded e1]
    from csc_entries_mem [OF v e(2)] fin obtain x where "r < m" "a = Fin x"
      by (auto simp: is_finite_iff)
    then show "?f e = Fin 0" by (simp add: e zero_pfloat_def)
  qed
  then show ?thesis
    unfolding csc_tmult_def f by (simp add: zero_pfloat_def fold_add_zero)
qed

section \<open>The sum of squares of a column\<close>



section \<open>What \<open>initPriv\<close> returns\<close>


lemma scs_malloc_Some: "scs_malloc x h = (Some v, h') \<Longrightarrow> v = x"
  by (auto simp: scs_malloc_def split: list.splits if_splits)

lemma scs_malloc_ok: "next_alloc_ok h \<Longrightarrow> \<exists>h1. scs_malloc x h = (Some x, h1)"
  by (auto simp: next_alloc_ok_def scs_malloc_def split: list.splits)

lemma transpose_priv_runs:
  assumes "Ati p = Some Ci0" "Atp p = Some Cp0" "Atx p = Some Cx0" and "next_alloc_ok h"
    and "transpose_arrays (d_m d) (d_n d) (d_A d) Ci0 Cp0 Cx0 (replicate (d_m d) 0) = (Ci, Cp, Cx)"
  shows "\<exists>h'. transpose_priv d p h
                 = Returned (p\<lparr>Ati := Some Ci, Atp := Some Cp, Atx := Some Cx\<rparr>, h')"
proof -
  obtain h1 where m: "scs_malloc (replicate (d_m d) (0 :: nat)) h = (Some (replicate (d_m d) 0), h1)"
    using scs_malloc_ok [OF assms(4), of "replicate (d_m d) (0 :: nat)"] by auto
  have "transpose_priv d p h
          = Returned (p\<lparr>Ati := Some Ci, Atp := Some Cp, Atx := Some Cx\<rparr>, scs_free h1)"
    by (simp add: transpose_priv_def assms(1,2,3,5) m)
  then show ?thesis ..
qed

lemma transpose_priv_inv:
  assumes "transpose_priv d p h = Returned (p', h')"
  shows "\<exists>Ci0 Cp0 Cx0 Ci Cp Cx. Ati p = Some Ci0 \<and> Atp p = Some Cp0 \<and> Atx p = Some Cx0
           \<and> transpose_arrays (d_m d) (d_n d) (d_A d) Ci0 Cp0 Cx0 (replicate (d_m d) 0) = (Ci, Cp, Cx)
           \<and> p' = p\<lparr>Ati := Some Ci, Atp := Some Cp, Atx := Some Cx\<rparr>"
  using assms
  by (auto simp: transpose_priv_def scs_malloc_def
      split: list.splits if_splits prod.splits option.splits)

lemma getPreconditioner_inv:
  assumes "getPreconditioner d p = Returned p'"
  shows "\<exists>M. p' = p\<lparr>priv_M := M\<rparr>"
  using assms
  by (auto simp: getPreconditioner_def Let_def split: option.splits if_splits
      intro: exI [of _ None])

text \<open>
  The handle that \<open>initPriv\<close> returns has a scratch array of length \<open>m\<close> and the
  arrays that \<open>transpose\<close> built from \<open>A\<close>.
\<close>

lemma initPriv_handle:
  assumes "initPriv d h g = Returned (Some p, h', g')"
  shows "\<exists>t0 Ci0 Cp0 Cx0 Ci Cp Cx.
       priv_tmp p = Some t0 \<and> length t0 = d_m d
     \<and> Ati p = Some Ci \<and> Atp p = Some Cp \<and> Atx p = Some Cx
     \<and> transpose_arrays (d_m d) (d_n d) (d_A d) Ci0 Cp0 Cx0 (replicate (d_m d) 0) = (Ci, Cp, Cx)
     \<and> length Ci0 = A_p (d_A d) ! d_n d \<and> length Cp0 = d_m d + 1
     \<and> length Cx0 = A_p (d_A d) ! d_n d"
proof -
  let ?n = "d_n d" and ?m = "d_m d" and ?nnz = "A_p (d_A d) ! d_n d"
  obtain s h0 where a0: "scs_malloc () h = (s, h0)" by (cases "scs_malloc () h")
  obtain pp h1 where a1: "scs_malloc (replicate ?n (0 :: pfloat)) h0 = (pp, h1)" by (cases "scs_malloc (replicate ?n (0 :: pfloat)) h0")
  obtain pr h2 where a2: "scs_malloc (replicate ?n (0 :: pfloat)) h1 = (pr, h2)" by (cases "scs_malloc (replicate ?n (0 :: pfloat)) h1")
  obtain pAp h3 where a3: "scs_malloc (replicate ?n (0 :: pfloat)) h2 = (pAp, h3)" by (cases "scs_malloc (replicate ?n (0 :: pfloat)) h2")
  obtain ptmp h4 where a4: "scs_malloc (replicate ?m (0 :: pfloat)) h3 = (ptmp, h4)" by (cases "scs_malloc (replicate ?m (0 :: pfloat)) h3")
  obtain pz h5 where a5: "scs_malloc (replicate ?n (0 :: pfloat)) h4 = (pz, h5)" by (cases "scs_malloc (replicate ?n (0 :: pfloat)) h4")
  obtain pM h6 where a6: "scs_malloc (replicate ?n (0 :: pfloat)) h5 = (pM, h6)" by (cases "scs_malloc (replicate ?n (0 :: pfloat)) h5")
  obtain pAti h7 where a7: "scs_malloc (replicate ?nnz (0 :: nat)) h6 = (pAti, h7)" by (cases "scs_malloc (replicate ?nnz (0 :: nat)) h6")
  obtain pAtp h8 where a8: "scs_malloc (0 # replicate ?m (0 :: nat)) h7 = (pAtp, h8)"
    by (cases "scs_malloc (0 # replicate ?m (0 :: nat)) h7")
  obtain pAtx h9 where a9: "scs_malloc (replicate ?nnz (0 :: pfloat)) h8 = (pAtx, h9)" by (cases "scs_malloc (replicate ?nnz (0 :: pfloat)) h8")
  define p0 where "p0 = \<lparr>priv_p = pp, priv_r = pr, priv_Ap = pAp, priv_tmp = ptmp,
                       priv_z = pz, priv_M = pM, Ati = pAti, Atp = pAtp, Atx = pAtx\<rparr>"
  from assms obtain p1 hh where tp: "transpose_priv d p0 h9 = Returned (p1, hh)"
    and gp: "getPreconditioner d p1 = Returned p"
    and chk: "priv_tmp p \<noteq> None"
    by (auto simp: initPriv_def Let_def a0 a1 a2 a3 a4 a5 a6 a7 a8 a9 p0_def [symmetric]
        split: option.splits outcome.splits if_splits)
  from transpose_priv_inv [OF tp] obtain Ci0 Cp0 Cx0 Ci Cp Cx where
    b: "Ati p0 = Some Ci0" "Atp p0 = Some Cp0" "Atx p0 = Some Cx0"
    and ta: "transpose_arrays ?m ?n (d_A d) Ci0 Cp0 Cx0 (replicate ?m 0) = (Ci, Cp, Cx)"
    and p1: "p1 = p0\<lparr>Ati := Some Ci, Atp := Some Cp, Atx := Some Cx\<rparr>"
    by blast
  from getPreconditioner_inv [OF gp] obtain M where p: "p = p1\<lparr>priv_M := M\<rparr>" by blast
  have c: "Ci0 = replicate ?nnz 0" "Cp0 = replicate (?m + 1) 0" "Cx0 = replicate ?nnz 0"
    using b a7 a8 a9 by (auto simp: p0_def dest: scs_malloc_Some)
  have t: "priv_tmp p = Some (replicate ?m 0)"
    using chk a4 by (auto simp: p p1 p0_def dest: scs_malloc_Some)
  have "priv_tmp p = Some (replicate ?m 0) \<and> length (replicate ?m (0 :: pfloat)) = ?m
     \<and> Ati p = Some Ci \<and> Atp p = Some Cp \<and> Atx p = Some Cx
     \<and> transpose_arrays ?m ?n (d_A d) Ci0 Cp0 Cx0 (replicate ?m 0) = (Ci, Cp, Cx)
     \<and> length Ci0 = ?nnz \<and> length Cp0 = ?m + 1 \<and> length Cx0 = ?nnz"
    using t ta c by (simp add: p p1)
  then show ?thesis by blast
qed

section \<open>The claims\<close>

text \<open>
  C1. Claimed: with \<open>RHO_X > 0\<close>, a budget of \<open>n\<close> and a positive tolerance, \<open>pcg\<close>
  reaches the tolerance within \<open>n\<close> iterations and returns a count within the budget.
  The count is within the budget (\<open>pcg_count_le_budget\<close>), but the tolerance is not
  always reached: for the 2 by 2 identity, \<open>RHO_X = 1\<close> and the right-hand side
  \<open>(0, 0)\<close> the first step length is \<open>0 / 0\<close>, the buffer and the residual become NaN,
  no test \<open>calcNorm r < tol\<close> succeeds, and \<open>pcg\<close> returns its budget \<open>2\<close> with the
  solution buffer \<open>(NaN, NaN)\<close>.
\<close>

theorem pcg_zero_rhs_not_converged:
  "fst (pcg ident2 ident2_priv None [Fin 0, Fin 0] 2 CG_BEST_TOL) = 2
   \<and> cg_b (snd (pcg ident2 ident2_priv None [Fin 0, Fin 0] 2 CG_BEST_TOL)) = [NaN, NaN]
   \<and> (calcNorm (cg_r (snd (pcg ident2 ident2_priv None [Fin 0, Fin 0] 2 CG_BEST_TOL))) 2
        < CG_BEST_TOL) = False"
  by (simp add: ident2_def ident2_priv_def solver_defs eval_simps)

text \<open>
  C2. Claimed: \<open>initPriv\<close> returns a fully initialised handle or the failure signal,
  never a partly initialised handle. The test before \<open>return\<close> leaves out \<open>p->z\<close> (and
  \<open>p->M\<close>), which \<open>freePriv\<close> does know: when the sixth request, the one for \<open>z\<close>,
  fails and the others succeed, \<open>initPriv\<close> returns a handle whose \<open>z\<close> is \<open>NULL\<close>,
  with nine blocks live.
\<close>

theorem initPriv_returns_handle_without_z:
  "initPriv ident2 \<lparr>plan = [True, True, True, True, True, False], live = 0\<rparr> g
     = Returned (Some (ident2_priv\<lparr>priv_z := None\<rparr>), \<lparr>plan = [], live = 9\<rparr>,
                 \<lparr>totCgIts = 0, totalSolveTime = 0\<rparr>)"
  by (simp add: ident2_def ident2_priv_def init_defs eval_simps)

text \<open>
  C3. Claimed: with a negative iteration index the tolerance is the floor \<open>1e-7\<close>
  whatever the norm of the right-hand side. The code multiplies the norm by the floor and
  then takes the maximum with the floor: for a finite right-hand side the tolerance is
  \<open>max (\<parallel>b\<parallel> * 1e-7) 1e-7\<close>, which is the floor when \<open>\<parallel>b\<parallel> \<le> 1\<close>.
\<close>

theorem cgTol_final_solve:
  assumes "iter < 0" and "d_n d \<le> length bs"
  shows "cgTol d (map Fin bs) iter
           = Fin (max (sqrt (\<Sum>i<d_n d. bs ! i * bs ! i) * (1 / 10 ^ 7)) (1 / 10 ^ 7))
         \<and> (sqrt (\<Sum>i<d_n d. bs ! i * bs ! i) \<le> 1 \<longrightarrow> cgTol d (map Fin bs) iter = CG_BEST_TOL)"
proof -
  have "0 \<le> (\<Sum>i<d_n d. bs ! i * bs ! i)" by (intro sum_nonneg) simp
  then show ?thesis
    using assms
    by (simp add: cgTol_def calcNorm_def calcNormSq_Fin CG_BEST_TOL_def MAX_pfloat_def
        max_def not_less)
qed

theorem cgTol_final_solve_witness:
  "(- 1 :: int) < 0 \<and> d_n (line1 (Fin 2)) \<le> length [1 :: real]
   \<and> sqrt (\<Sum>i<d_n (line1 (Fin 2)). [1 :: real] ! i * [1] ! i) \<le> 1
   \<and> cgTol (line1 (Fin 2)) (map Fin [1]) (- 1) = CG_BEST_TOL"
  using cgTol_final_solve [of "- 1" "line1 (Fin 2)" "[1]"]
  by (simp add: line1_def CG_BEST_TOL_def)

text \<open>The right-hand side \<open>(2)\<close> gets the tolerance \<open>2e-7\<close>, not the floor.\<close>

theorem cgTol_final_solve_counterexample:
  "cgTol (line1 (Fin 2)) [Fin 2] (- 1) \<noteq> CG_BEST_TOL"
  by (simp add: line1_def cgTol_def calcNorm_def calcNormSq_def CG_BEST_TOL_def MAX_pfloat_def
      zero_pfloat_def)

text \<open>
  C4. For a well-formed matrix \<open>A\<close>, a workspace whose arrays \<open>Ati\<close>, \<open>Atp\<close>, \<open>Atx\<close> are
  those that \<open>transpose\<close> built from \<open>A\<close>, any contents of the scratch array \<open>tmp\<close> and
  of the output \<open>y\<close> at the call, and every vector \<open>x\<close> of length \<open>n\<close>, \<open>matVec\<close> returns
  \<open>y = A' (A x) + RHO_X x\<close>, where \<open>(A x)\<^sub>i\<close> is \<open>csc_mult\<close> and \<open>(A' t)\<^sub>j\<close> is
  \<open>csc_tmult\<close>: the products of the stored entries of row \<open>i\<close> (of column \<open>j\<close>) with the
  cells of the vector, added to \<open>0\<close> in the order in which \<open>A\<close> stores them. Sums and
  products are those of \<open>pfloat\<close>, in the order in which the loops take them, and the proof
  uses no law of arithmetic: the equation holds for infinite and NaN values too, and does
  not depend on how \<open>pfloat\<close> rounds. When the values of \<open>A\<close> and \<open>RHO_X\<close> are finite,
  \<open>matVec\<close> maps the zero vector to the zero vector.
\<close>

theorem matVec_correct:
  assumes v: "valid_csc (d_m d) (d_n d) (d_A d)"
    and tmp: "priv_tmp p = Some t0" "length t0 = d_m d"
    and cache: "Ati p = Some Ci" "Atp p = Some Cp" "Atx p = Some Cx"
    and ta: "transpose_arrays (d_m d) (d_n d) (d_A d) Ci0 Cp0 Cx0 (replicate (d_m d) 0)
               = (Ci, Cp, Cx)"
    and len: "length Ci0 = A_p (d_A d) ! d_n d" "length Cp0 = d_m d + 1"
      "length Cx0 = A_p (d_A d) ! d_n d"
    and x: "length x = d_n d" and y: "length y = d_n d"
  shows "matVec d p x y
           = map (\<lambda>j. csc_tmult (d_n d) (d_A d) (map (csc_mult (d_n d) (d_A d) x) [0..<d_m d]) j
                       + RHO_X d * x ! j)
                 [0..<d_n d]
         \<and> (list_all is_finite (A_x (d_A d)) \<and> is_finite (RHO_X d)
              \<longrightarrow> matVec d p (replicate (d_n d) 0) y = replicate (d_n d) 0)"
proof -
  let ?A = "d_A d" and ?m = "d_m d" and ?n = "d_n d"
  note prod = matVec_products [OF v tmp cache ta len y]
  have zero: "matVec d p (replicate ?n 0) y = replicate ?n 0"
    if fin0: "list_all is_finite (A_x ?A)" and rho: "is_finite (RHO_X d)"
  proof -
    from fin0 have fin: "\<forall>a\<in>set (A_x ?A). is_finite a" by (simp add: list_all_iff)
    from rho obtain r where r: "RHO_X d = Fin r" by (auto simp: is_finite_iff)
    have "map (csc_mult ?n ?A (replicate ?n 0)) [0..<?m] = map (\<lambda>i. 0) [0..<?m]"
      by (rule map_cong [OF refl]) (simp add: csc_mult_zero [OF v fin])
    then have t: "map (csc_mult ?n ?A (replicate ?n 0)) [0..<?m] = replicate ?m 0"
      by (simp add: map_replicate_const)
    have ct: "csc_tmult ?n ?A (replicate ?m (Fin 0)) j = Fin 0" for j
      using csc_tmult_zero [OF v fin, of j] by (simp add: zero_pfloat_def)
    have "matVec d p (replicate ?n 0) y
            = map (\<lambda>j. csc_tmult ?n ?A (replicate ?m 0) j + RHO_X d * replicate ?n 0 ! j) [0..<?n]"
      unfolding prod t ..
    also have "\<dots> = map (\<lambda>j. 0) [0..<?n]"
      using ct by (intro map_cong [OF refl]) (simp add: r zero_pfloat_def)
    also have "\<dots> = replicate ?n 0"
      by (simp add: map_replicate_const)
    finally show ?thesis .
  qed
  from prod zero show ?thesis by blast
qed

text \<open>
  The matrix with rows \<open>(1 0 2)\<close> and \<open>(3 4 0)\<close>, a scratch array that holds \<open>3\<close> and
  NaN, an output that holds \<open>+\<infinity>\<close>, \<open>5\<close> and NaN, and \<open>x = (1, 1, 1)\<close>:
  \<open>A x = (3, 7)\<close> and \<open>y = (25, 29, 7)\<close>.
\<close>

theorem matVec_correct_witness:
  "valid_csc (d_m ex23) (d_n ex23) (d_A ex23)
   \<and> priv_tmp ex23_dirty = Some [Fin 3, NaN]
   \<and> transpose_arrays (d_m ex23) (d_n ex23) (d_A ex23) [7, 7, 7, 7] [9, 9, 9]
         [NaN, NaN, NaN, NaN] (replicate (d_m ex23) 0)
       = (the (Ati ex23_dirty), the (Atp ex23_dirty), the (Atx ex23_dirty))
   \<and> list_all is_finite (A_x (d_A ex23)) \<and> is_finite (RHO_X ex23)
   \<and> matVec ex23 ex23_dirty [Fin 1, Fin 1, Fin 1] [PInf, Fin 5, NaN] = [Fin 25, Fin 29, Fin 7]
   \<and> matVec ex23 ex23_dirty (replicate (d_n ex23) 0) [PInf, Fin 5, NaN] = replicate (d_n ex23) 0"
proof -
  have h: "priv_tmp ex23_dirty = Some [Fin 3, NaN]" "length [Fin 3, NaN] = d_m ex23"
    "Ati ex23_dirty = Some [0, 2, 0, 1]" "Atp ex23_dirty = Some [0, 2, 4]"
    "Atx ex23_dirty = Some [Fin 1, Fin 2, Fin 3, Fin 4]"
    by (simp_all add: ex23_dirty_def ex23_priv_def ex23_def)
  have l: "length [7 :: nat, 7, 7, 7] = A_p (d_A ex23) ! d_n ex23"
    "length [9 :: nat, 9, 9] = d_m ex23 + 1"
    "length [NaN, NaN, NaN, NaN] = A_p (d_A ex23) ! d_n ex23"
    "length [Fin 1, Fin 1, Fin 1] = d_n ex23" "length [PInf, Fin 5, NaN] = d_n ex23"
    by (simp_all add: ex23_def)
  have f: "list_all is_finite (A_x (d_A ex23))" "is_finite (RHO_X ex23)"
    by (simp_all add: ex23_def is_finite_def)
  note r = matVec_correct [OF valid_csc_ex23 h transpose_arrays_ex23 l]
  have "map (\<lambda>j. csc_tmult (d_n ex23) (d_A ex23)
                    (map (csc_mult (d_n ex23) (d_A ex23) [Fin 1, Fin 1, Fin 1]) [0..<d_m ex23]) j
                  + RHO_X ex23 * [Fin 1, Fin 1, Fin 1] ! j) [0..<d_n ex23]
          = [Fin 25, Fin 29, Fin 7]"
    by (simp add: ex23_def csc_tmult_def csc_mult_def csc_entries_def eval_simps)
  with conjunct1 [OF r]
  have 1: "matVec ex23 ex23_dirty [Fin 1, Fin 1, Fin 1] [PInf, Fin 5, NaN] = [Fin 25, Fin 29, Fin 7]"
    by simp
  have 2: "matVec ex23 ex23_dirty (replicate (d_n ex23) 0) [PInf, Fin 5, NaN] = replicate (d_n ex23) 0"
    using conjunct2 [OF r] f by simp
  from valid_csc_ex23 h(1) transpose_arrays_ex23 f 1 2 show ?thesis
    by (simp add: h)
qed

text \<open>
  C5. For a well-formed matrix \<open>A\<close>, buffers of the sizes that \<open>initPriv\<close> allocates
  and a successful \<open>calloc\<close>, \<open>transpose\<close> returns and leaves in \<open>Ati\<close>, \<open>Atp\<close>,
  \<open>Atx\<close> a well-formed column-compressed matrix with \<open>m\<close> columns whose stored
  entries are, as a multiset, the entries (row, column, value) of \<open>A\<close> with row and
  column exchanged: each entry of \<open>A\<close> occurs exactly once, with its value, and the
  numbers of entries agree.
\<close>

theorem transpose_priv_correct:
  assumes v: "valid_csc (d_m d) (d_n d) (d_A d)"
    and bufs: "Ati p = Some Ci0" "length Ci0 = A_p (d_A d) ! d_n d"
      "Atp p = Some Cp0" "length Cp0 = d_m d + 1"
      "Atx p = Some Cx0" "length Cx0 = A_p (d_A d) ! d_n d"
    and ok: "next_alloc_ok h"
  shows "\<exists>Ci Cp Cx h'.
       transpose_priv d p h = Returned (p\<lparr>Ati := Some Ci, Atp := Some Cp, Atx := Some Cx\<rparr>, h')
     \<and> valid_csc (d_n d) (d_m d) \<lparr>A_x = Cx, A_i = Ci, A_p = Cp\<rparr>
     \<and> Cp ! d_m d = A_p (d_A d) ! d_n d
     \<and> mset (csc_entries (d_m d) \<lparr>A_x = Cx, A_i = Ci, A_p = Cp\<rparr>)
         = image_mset (\<lambda>(i, j, v). (j, i, v)) (mset (csc_entries (d_n d) (d_A d)))"
proof -
  let ?A = "d_A d"
  from transpose_arrays_correct [OF v bufs(2,4,6)] obtain Ci Cx where
    ta: "transpose_arrays (d_m d) (d_n d) ?A Ci0 Cp0 Cx0 (replicate (d_m d) 0)
           = (Ci, map (row_start (A_i ?A)) [0..<Suc (d_m d)], Cx)"
    and len: "length Ci = A_p ?A ! d_n d" "length Cx = A_p ?A ! d_n d"
    and ent: "\<forall>j<d_n d. \<forall>k. A_p ?A ! j \<le> k \<and> k < A_p ?A ! (j + 1)
                 \<longrightarrow> Ci ! dest (A_i ?A) k = j \<and> Cx ! dest (A_i ?A) k = A_x ?A ! k"
    by blast
  define Cp where "Cp = map (row_start (A_i ?A)) [0..<Suc (d_m d)]"
  obtain h' where run: "transpose_priv d p h
                 = Returned (p\<lparr>Ati := Some Ci, Atp := Some Cp, Atx := Some Cx\<rparr>, h')"
    using transpose_priv_runs [OF bufs(1,3,5) ok ta] unfolding Cp_def by blast
  have vt: "valid_csc (d_n d) (d_m d) \<lparr>A_x = Cx, A_i = Ci, A_p = Cp\<rparr>"
    unfolding Cp_def using ent by (intro transposed_valid [OF v len]) blast
  then have tot: "Cp ! d_m d = A_p ?A ! d_n d"
    using len by (simp add: valid_csc_def)
  have ms: "mset (csc_entries (d_m d) \<lparr>A_x = Cx, A_i = Ci, A_p = Cp\<rparr>)
         = image_mset (\<lambda>(i, j, v). (j, i, v)) (mset (csc_entries (d_n d) ?A))"
    unfolding Cp_def by (rule transposed_entries [OF v len ent])
  from run vt tot ms show ?thesis by blast
qed

theorem transpose_priv_correct_witness:
  "valid_csc (d_m ex23) (d_n ex23) (d_A ex23)
   \<and> next_alloc_ok \<lparr>plan = [], live = 0\<rparr>
   \<and> transpose_priv ex23
       (ex23_priv\<lparr>Ati := Some [0, 0, 0, 0], Atp := Some [0, 0, 0], Atx := Some [0, 0, 0, 0]\<rparr>)
       \<lparr>plan = [], live = 0\<rparr>
     = Returned (ex23_priv, \<lparr>plan = [], live = 0\<rparr>)
   \<and> valid_csc 3 2 \<lparr>A_x = [Fin 1, Fin 2, Fin 3, Fin 4], A_i = [0, 2, 0, 1], A_p = [0, 2, 4]\<rparr>
   \<and> mset (csc_entries 2 \<lparr>A_x = [Fin 1, Fin 2, Fin 3, Fin 4], A_i = [0, 2, 0, 1], A_p = [0, 2, 4]\<rparr>)
       = image_mset (\<lambda>(i, j, v). (j, i, v)) (mset (csc_entries 3 (d_A ex23)))"
proof -
  let ?p0 = "ex23_priv\<lparr>Ati := Some [0, 0, 0, 0], Atp := Some [0, 0, 0], Atx := Some [0, 0, 0, 0]\<rparr>"
  have ok: "next_alloc_ok \<lparr>plan = [], live = 0\<rparr>" by (simp add: next_alloc_ok_def)
  have b: "Ati ?p0 = Some [0, 0, 0, 0]"
    "length [0 :: nat, 0, 0, 0] = A_p (d_A ex23) ! d_n ex23"
    "Atp ?p0 = Some [0, 0, 0]"
    "length [0 :: nat, 0, 0] = d_m ex23 + 1"
    "Atx ?p0 = Some [0, 0, 0, 0]"
    "length [0 :: pfloat, 0, 0, 0] = A_p (d_A ex23) ! d_n ex23"
    by (simp_all add: ex23_def)
  from transpose_priv_correct [OF valid_csc_ex23 b ok]
  obtain Ci Cp Cx h' where
    p: "transpose_priv ex23 ?p0 \<lparr>plan = [], live = 0\<rparr>
          = Returned (?p0\<lparr>Ati := Some Ci, Atp := Some Cp, Atx := Some Cx\<rparr>, h')"
    and r: "valid_csc (d_n ex23) (d_m ex23) \<lparr>A_x = Cx, A_i = Ci, A_p = Cp\<rparr>"
      "mset (csc_entries (d_m ex23) \<lparr>A_x = Cx, A_i = Ci, A_p = Cp\<rparr>)
         = image_mset (\<lambda>(i, j, v). (j, i, v)) (mset (csc_entries (d_n ex23) (d_A ex23)))"
    by blast
  from p have e: "ex23_priv = ?p0\<lparr>Ati := Some Ci, Atp := Some Cp, Atx := Some Cx\<rparr>"
    by (simp only: transpose_priv_ex23 outcome.inject prod.inject)
  have "Ati ex23_priv = Some Ci" "Atp ex23_priv = Some Cp" "Atx ex23_priv = Some Cx"
    using arg_cong [OF e, of Ati] arg_cong [OF e, of Atp] arg_cong [OF e, of Atx]
    by simp_all
  then have "Ci = [0, 2, 0, 1]" "Cp = [0, 2, 4]" "Cx = [Fin 1, Fin 2, Fin 3, Fin 4]"
    by (simp_all add: ex23_priv_def)
  with r have "valid_csc 3 2 \<lparr>A_x = [Fin 1, Fin 2, Fin 3, Fin 4], A_i = [0, 2, 0, 1], A_p = [0, 2, 4]\<rparr>"
    "mset (csc_entries 2 \<lparr>A_x = [Fin 1, Fin 2, Fin 3, Fin 4], A_i = [0, 2, 0, 1], A_p = [0, 2, 4]\<rparr>)
       = image_mset (\<lambda>(i, j, v). (j, i, v)) (mset (csc_entries 3 (d_A ex23)))"
    by (simp_all add: ex23_def)
  with valid_csc_ex23 ok transpose_priv_ex23 show ?thesis by blast
qed




text \<open>
  C7. Claimed: with a warm start equal to the exact solution, \<open>pcg\<close> returns after at
  most one iteration. For the 2 by 2 identity and \<open>RHO_X = 1\<close> the operator maps
  \<open>s = (1, 1)\<close> to \<open>b = (2, 2)\<close>; the residual after the initialisation is zero, the
  first step length is \<open>0 / 0\<close>, and \<open>pcg\<close> returns \<open>2\<close> with the buffer
  \<open>(NaN, NaN)\<close> in place of the solution it was given.
\<close>

theorem pcg_exact_warm_start_not_kept:
  "matVec ident2 ident2_priv [Fin 1, Fin 1] [0, 0] = [Fin 2, Fin 2]
   \<and> cg_r (pcg_init ident2 ident2_priv (Some [Fin 1, Fin 1]) [Fin 2, Fin 2]) = [Fin 0, Fin 0]
   \<and> fst (pcg ident2 ident2_priv (Some [Fin 1, Fin 1]) [Fin 2, Fin 2] 2 CG_BEST_TOL) = 2
   \<and> cg_b (snd (pcg ident2 ident2_priv (Some [Fin 1, Fin 1]) [Fin 2, Fin 2] 2 CG_BEST_TOL))
        = [NaN, NaN]"
  by (simp add: ident2_def ident2_priv_def solver_defs eval_simps)

text \<open>
  C8. Claimed: for \<open>0 \<le> iter1 < iter2\<close> the tolerance at \<open>iter2\<close> is at most the one
  at \<open>iter1\<close>. This holds for every buffer when the exponent \<open>CG_RATE\<close> is not
  negative; a negative exponent loosens the tolerance instead.
\<close>

theorem cgTol_tightens:
  assumes rate: "CG_RATE d = Fin rate" "0 \<le> rate"
    and it: "0 \<le> iter1" "iter1 < iter2"
  shows "cgTol d b iter2 \<le> cgTol d b iter1"
proof -
  define f1 where "f1 = 1 / real_of_int (iter1 + 1) powr rate"
  define f2 where "f2 = 1 / real_of_int (iter2 + 1) powr rate"
  have pos1: "0 < real_of_int (iter1 + 1)" and pos2: "0 < real_of_int (iter2 + 1)"
    using it by simp_all
  have le: "real_of_int (iter1 + 1) powr rate \<le> real_of_int (iter2 + 1) powr rate"
    using it rate by (intro powr_mono2) simp_all
  have p1: "0 < real_of_int (iter1 + 1) powr rate" using pos1 by simp
  have p2: "0 < real_of_int (iter2 + 1) powr rate" using pos2 by simp
  have f: "0 < f2" "f2 \<le> f1"
    using le p1 pos2 by (simp_all add: f1_def f2_def frac_le)
  have t1: "cgTol d b iter1 = MAX_pfloat (calcNorm b (d_n d) * Fin f1) CG_BEST_TOL"
    using it rate p1 by (simp add: cgTol_def of_idxint_def one_pfloat_def f1_def)
  have t2: "cgTol d b iter2 = MAX_pfloat (calcNorm b (d_n d) * Fin f2) CG_BEST_TOL"
    using it rate p2 by (simp add: cgTol_def of_idxint_def one_pfloat_def f2_def)
  from calcNorm_cases [of b "d_n d"] show ?thesis
  proof (elim disjE exE conjE)
    fix x :: real
    assume x: "0 \<le> x" "calcNorm b (d_n d) = Fin x"
    have "x * f2 \<le> x * f1" using x f by (intro mult_left_mono) simp_all
    then show ?thesis
      unfolding t1 t2 using x by (simp add: MAX_pfloat_def CG_BEST_TOL_def)
  next
    assume "calcNorm b (d_n d) = PInf"
    then show ?thesis
      unfolding t1 t2 using f by (simp add: MAX_pfloat_def CG_BEST_TOL_def)
  next
    assume "calcNorm b (d_n d) = NaN"
    then show ?thesis
      unfolding t1 t2 by (simp add: MAX_pfloat_def CG_BEST_TOL_def)
  qed
qed

theorem cgTol_tightens_witness:
  "CG_RATE (line1 (Fin 2)) = Fin 2 \<and> (0 :: real) \<le> 2 \<and> (0 :: int) \<le> 0 \<and> (0 :: int) < 1
   \<and> cgTol (line1 (Fin 2)) [Fin 1] 1 \<le> cgTol (line1 (Fin 2)) [Fin 1] 0"
  using cgTol_tightens [of "line1 (Fin 2)" 2 0 1 "[Fin 1]"]
  by (simp add: line1_def)

text \<open>
  With the exponent \<open>-1\<close> and the right-hand side \<open>(1)\<close> the tolerance is \<open>1\<close> at
  iteration 0 and \<open>2\<close> at iteration 1.
\<close>

theorem cgTol_tightens_counterexample:
  "\<not> cgTol (line1 (Fin (- 1))) [Fin 1] 1 \<le> cgTol (line1 (Fin (- 1))) [Fin 1] 0"
  by (simp add: line1_def cgTol_def calcNorm_def calcNormSq_def CG_BEST_TOL_def MAX_pfloat_def
      zero_pfloat_def one_pfloat_def of_idxint_def powr_minus)

text \<open>
  C9. After two solves with a non-negative iteration index that take 3 and 5 iterations,
  starting from a count of zero, \<open>getLinSysSummary\<close> with \<open>info->iter = 1\<close> reports the
  average \<open>8 / 2 = 4\<close> and leaves both counters at zero.
\<close>

theorem getLinSysSummary_after_two_solves:
  assumes g0: "totCgIts g0 = 0"
    and it: "0 \<le> iter1" "0 \<le> iter2"
    and s1: "solveLinSys d p b1 s1 iter1 e1 g0 = (b1', 3, g1)"
    and s2: "solveLinSys d p b2 s2 iter2 e2 g1 = (b2', 5, g2)"
  shows "fst (fst (getLinSysSummary p 1 g2)) = Fin 4
       \<and> snd (getLinSysSummary p 1 g2) = \<lparr>totCgIts = 0, totalSolveTime = 0\<rparr>"
proof -
  have "totCgIts g1 = 3"
    using s1 g0 it by (auto simp: solveLinSys_def Let_def split: prod.splits)
  then have "totCgIts g2 = 8"
    using s2 it by (auto simp: solveLinSys_def Let_def split: prod.splits)
  then show ?thesis
    by (cases g2) (simp add: getLinSysSummary_def of_idxint_def)
qed

theorem getLinSysSummary_after_two_solves_witness:
  "totCgIts \<lparr>totCgIts = 0, totalSolveTime = 0\<rparr> = 0 \<and> (0 :: int) \<le> 99
   \<and> fst (snd (solveLinSys blocks5 blocks5_priv [Fin 2, Fin 1, Fin 2, 0, 0, 0, 0] None 99
                 (Fin 7) \<lparr>totCgIts = 0, totalSolveTime = 0\<rparr>)) = 3
   \<and> fst (snd (solveLinSys blocks5 blocks5_priv [Fin 1, Fin 1, Fin 1, Fin 2, Fin 3, 0, 0] None
                 99 (Fin 9) \<lparr>totCgIts = 3, totalSolveTime = Fin 7\<rparr>)) = 5
   \<and> getLinSysSummary blocks5_priv 1 \<lparr>totCgIts = 8, totalSolveTime = Fin 16\<rparr>
       = ((Fin 4, Fin (1 / 125)), \<lparr>totCgIts = 0, totalSolveTime = 0\<rparr>)"
  using getLinSysSummary_after_two_solves [OF _ _ _ solveLinSys_blocks5_first
      solveLinSys_blocks5_second]
  unfolding solveLinSys_blocks5_first solveLinSys_blocks5_second
  by (simp add: getLinSysSummary_def of_idxint_def zero_pfloat_def)

text \<open>
  C10. The counters are file-scope variables, not fields of the handle, and \<open>initPriv\<close>
  sets both to zero before it tests its allocations: whatever the solves of other
  instances have accumulated in them is gone once \<open>initPriv\<close> returns, with a handle or
  with \<open>NULL\<close>.
\<close>

theorem initPriv_erases_statistics:
  assumes "initPriv d h g = Returned (r, h', g')"
  shows "g' = \<lparr>totCgIts = 0, totalSolveTime = 0\<rparr>"
  using assms
  by (auto simp: initPriv_def Let_def split: prod.splits option.splits outcome.splits if_splits)

theorem initPriv_erases_statistics_witness:
  "initPriv ident2 \<lparr>plan = [], live = 0\<rparr> \<lparr>totCgIts = 8, totalSolveTime = Fin 16\<rparr>
     = Returned (Some ident2_priv, \<lparr>plan = [], live = 10\<rparr>,
                 \<lparr>totCgIts = 0, totalSolveTime = 0\<rparr>)"
  using initPriv_erases_statistics
      [OF initPriv_ident2 [of "\<lparr>totCgIts = 8, totalSolveTime = Fin 16\<rparr>"]]
  by (simp add: initPriv_ident2)

end
